theory Spec2Isabelle
  imports Main "HOL-Library.Finite_Map"
begin

section \<open>Go values as the logger sees them\<close>

text \<open>
  The logger of package \<open>mon\<close> receives caller-supplied values of type \<open>interface{}\<close> and
  inspects them by a type switch and by reflection. A value is modelled by the cases that
  \<open>prepareForLog\<close> distinguishes:
  \<^item> \<open>GNil\<close>: the nil interface (reflection kind \<open>Invalid\<close>);
  \<^item> \<open>GErr t\<close>: a non-nil interface value whose dynamic type implements \<open>error\<close>, whatever
    its kind; \<open>t\<close> is the outcome of its \<open>Error()\<close> method: \<open>Some s\<close> when the method returns
    the string \<open>s\<close>, \<open>None\<close> when the method panics. The second case is what a nil pointer
    of a type that implements \<open>error\<close> gives: the interface that holds it is not nil, the
    type switch selects \<open>case error\<close>, and \<open>Error()\<close> is called on the nil receiver, where it
    dereferences it;
  \<^item> \<open>GBool\<close>, \<open>GInt\<close>, \<open>GString\<close>: primitives; \<open>GOther n\<close>: a value of any other kind
    that reaches the last \<open>default\<close> branch (float, complex, chan, func, unsafe pointer),
    identified by \<open>n\<close>;
  \<^item> \<open>GMapSI\<close>: a \<open>map[string]interface{}\<close>, \<open>None\<close> being the nil map;
  \<^item> \<open>GMap\<close>: a map of any other map type, given as the sequence of its entries in the order
    in which \<open>MapRange\<close> yields them, each key already rendered by \<open>fmt.Sprint\<close> (two
    different keys can have the same rendering);
  \<^item> \<open>GPtr\<close>: a pointer of a type that does not implement \<open>error\<close> (a pointer of a type
    that does is a \<open>GErr\<close>), \<open>None\<close> being nil, \<open>Some a\<close> the address of the pointee in the
    heap;
  \<^item> \<open>GStruct\<close>: a struct, as the list of its fields in declaration order: name, whether the
    field can be read through reflection (\<open>CanInterface\<close>, that is, exported), and value;
  \<^item> \<open>GSlice\<close>: a slice, \<open>None\<close> being the nil slice; \<open>GArray\<close>: an array.

  Pointers go through a heap (a function from addresses to the value stored there), because
  pointers are how a Go object graph becomes cyclic, and the recursion of \<open>prepareForLog\<close>
  follows them. Maps and slices carry their elements directly.
\<close>

datatype gval =
    GNil
  | GErr "string option"
  | GBool bool
  | GInt int
  | GString string
  | GOther nat
  | GMapSI "(string, gval) fmap option"
  | GMap "(string \<times> gval) list option"
  | GPtr "nat option"
  | GStruct "(string \<times> bool \<times> gval) list"
  | GSlice "gval list option"
  | GArray "gval list"

type_synonym heap = "nat \<Rightarrow> gval"

type_synonym gomap = "(string, gval) fmap option"

text \<open>Ranging over a nil map visits nothing, as ranging over an empty one.\<close>

definition entries :: "('k, 'a) fmap option \<Rightarrow> ('k, 'a) fmap" where
  "entries m = (case m of None \<Rightarrow> fmempty | Some t \<Rightarrow> t)"

definition pairs :: "('k \<times> 'a) list option \<Rightarrow> ('k \<times> 'a) list" where
  "pairs m = (case m of None \<Rightarrow> [] | Some t \<Rightarrow> t)"

text \<open>The fields of a struct for which \<open>field.CanInterface()\<close> holds, with their names.\<close>

definition exported :: "(string \<times> bool \<times> 'a) list \<Rightarrow> (string \<times> 'a) list" where
  "exported fs = map (\<lambda>f. (fst f, snd (snd f))) (filter (\<lambda>f. fst (snd f)) fs)"

section \<open>The loops of the sanitizer\<close>

text \<open>
  A call of the sanitizer has three possible ends: it returns a value, it panics because
  \<open>Error()\<close> panics on the nil receiver, or it never returns. The first two are the cases of
  \<open>attempt\<close>; a call that does not return is the value \<open>None\<close> around it. \<open>andThen\<close> is
  sequencing: what follows a call runs only when the call has returned a value.
\<close>

datatype 'a attempt = is_Value: Value (value_of: 'a) | NilDereference

definition andThen ::
  "'a attempt option \<Rightarrow> ('a \<Rightarrow> 'b attempt option) \<Rightarrow> 'b attempt option" where
  "andThen m k =
     Option.bind m (\<lambda>r. case r of NilDereference \<Rightarrow> Some NilDereference | Value a \<Rightarrow> k a)"

definition returns_value :: "'a attempt option \<Rightarrow> bool" where
  "returns_value r = (case r of Some (Value _) \<Rightarrow> True | _ \<Rightarrow> False)"

text \<open>
  The three loop shapes of the source:
  \<^item> \<open>mapM\<close>: \<open>for i := range newArray { newArray[i] = prepareForLog(...) }\<close>;
  \<^item> \<open>rangeInsert\<close>: \<open>newMap[key] = prepareForLog(value)\<close> for a sequence of entries, a later
    entry overwriting an earlier one with the same key;
  \<^item> \<open>fmtraverse\<close>: \<open>for k, v := range m { newMap[k] = prepareForLog(v) }\<close> over a Go map with
    string keys: the keys are distinct, so the order of the iteration does not show in
    the map that is built, and the loop returns that map exactly when every call in it
    returns a value. When no call returns a value for some entry, the loop ends as the
    first such call met ends; Go leaves the order of the iteration over a map open, so
    when one call panics and another never returns, either can come first. The model
    then gives the loop as not returning, and as panicking when every call returns or
    panics.
\<close>

fun mapM :: "('a \<Rightarrow> 'b attempt option) \<Rightarrow> 'a list \<Rightarrow> 'b list attempt option" where
  "mapM f [] = Some (Value [])"
| "mapM f (x # xs) = andThen (f x) (\<lambda>y. andThen (mapM f xs) (\<lambda>ys. Some (Value (y # ys))))"

fun rangeInsert ::
  "('a \<Rightarrow> 'b attempt option) \<Rightarrow> (string \<times> 'a) list \<Rightarrow> (string, 'b) fmap \<Rightarrow>
     (string, 'b) fmap attempt option" where
  "rangeInsert f [] newMap = Some (Value newMap)"
| "rangeInsert f ((k, v) # kvs) newMap =
     andThen (f v) (\<lambda>y. rangeInsert f kvs (fmupd k y newMap))"

definition fmtraverse ::
  "('a \<Rightarrow> 'b attempt option) \<Rightarrow> ('k, 'a) fmap \<Rightarrow> ('k, 'b) fmap attempt option" where
  "fmtraverse f m =
     (if fmpred (\<lambda>_ v. f v \<noteq> None) m
      then (if fmpred (\<lambda>_ v. returns_value (f v)) m
            then Some (Value (fmmap (\<lambda>v. value_of (the (f v))) m))
            else Some NilDereference)
      else None)"

lemma andThen_mono [partial_function_mono]:
  assumes "mono_option B" and "\<And>y. mono_option (\<lambda>f. C y f)"
  shows "mono_option (\<lambda>f. andThen (B f) (\<lambda>y. C y f))"
proof -
  have "mono_option (\<lambda>f. case r of NilDereference \<Rightarrow> Some NilDereference | Value a \<Rightarrow> C a f)"
    for r
    by (cases r) (simp_all add: option.const_mono assms(2))
  then show ?thesis
    unfolding andThen_def by (intro partial_function_mono assms(1))
qed

lemma mapM_mono [partial_function_mono]:
  fixes B :: "('c \<Rightarrow> 'd option) \<Rightarrow> 'a \<Rightarrow> 'b attempt option"
  assumes "\<And>x. mono_option (\<lambda>f. B f x)"
  shows "mono_option (\<lambda>f. mapM (B f) xs)"
proof (induction xs)
  case Nil
  show ?case by (simp add: option.const_mono)
next
  case (Cons x xs)
  show ?case
    unfolding mapM.simps by (intro partial_function_mono assms Cons)
qed

lemma rangeInsert_mono [partial_function_mono]:
  fixes B :: "('c \<Rightarrow> 'd option) \<Rightarrow> 'a \<Rightarrow> 'b attempt option"
  assumes "\<And>x. mono_option (\<lambda>f. B f x)"
  shows "mono_option (\<lambda>f. rangeInsert (B f) kvs newMap)"
proof (induction kvs arbitrary: newMap)
  case Nil
  show ?case by (simp add: option.const_mono)
next
  case (Cons kv kvs)
  obtain k v where kv: "kv = (k, v)" by (cases kv)
  show ?case
    unfolding kv rangeInsert.simps by (intro partial_function_mono assms Cons)
qed

lemma fmtraverse_mono [partial_function_mono]:
  fixes B :: "('c \<Rightarrow> 'd option) \<Rightarrow> 'a \<Rightarrow> 'b attempt option"
  assumes "\<And>x. mono_option (\<lambda>f. B f x)"
  shows "mono_option (\<lambda>f. fmtraverse (B f) m)"
proof (rule monotoneI)
  fix f g :: "'c \<Rightarrow> 'd option"
  assume fg: "fun_ord option_ord f g"
  have le: "option_ord (B f x) (B g x)" for x
    using assms fg by (auto simp: monotone_def)
  show "option_ord (fmtraverse (B f) m) (fmtraverse (B g) m)"
  proof (cases "fmpred (\<lambda>_ v. B f v \<noteq> None) m")
    case False
    then show ?thesis by (simp add: fmtraverse_def flat_ord_def)
  next
    case True
    have eq: "B g v = B f v" if "v \<in> fmran' m" for v
    proof -
      from that True have "B f v \<noteq> None"
        by (auto simp: fmpred_iff fmlookup_ran'_iff)
      with le[of v] show ?thesis by (auto simp: flat_ord_def)
    qed
    have eq': "B g v = B f v" if "fmlookup m k = Some v" for k v
      using that by (intro eq) (rule fmran'I)
    have "fmpred (\<lambda>_ v. B g v \<noteq> None) m = fmpred (\<lambda>_ v. B f v \<noteq> None) m"
      by (auto simp: fmpred_iff eq')
    moreover have "fmpred (\<lambda>_ v. returns_value (B g v)) m
        = fmpred (\<lambda>_ v. returns_value (B f v)) m"
      by (auto simp: fmpred_iff eq')
    moreover have "fmmap (\<lambda>v. value_of (the (B g v))) m = fmmap (\<lambda>v. value_of (the (B f v))) m"
      by (rule fmap.map_cong) (auto simp: eq)
    ultimately have "fmtraverse (B g) m = fmtraverse (B f) m"
      by (simp add: fmtraverse_def)
    then show ?thesis by (simp add: flat_ord_def)
  qed
qed

section \<open>prepareForLog and mergeMapStringInterface\<close>

text \<open>
  \<open>prepareForLog\<close> follows the source case by case: the type switch first (\<open>error\<close>, then
  \<open>map[string]interface{}\<close>), then the switch on the reflection kind (map, pointer, struct,
  slice or array, anything else). Kind \<open>Interface\<close> cannot occur: \<open>reflect.ValueOf\<close> of
  an \<open>interface{}\<close> yields the dynamic value. Reading a pointer is \<open>rv.Elem().Interface()\<close>,
  the heap cell. \<open>case error\<close> comes first: a value whose type implements \<open>error\<close> never
  reaches the reflection switch, nil pointer or not, and the call ends as \<open>t.Error()\<close>
  ends. The recursion has no bound in the source, so the function is partial: \<open>None\<close> is a
  call that never returns (in Go, the stack overflows).

  In the source the \<open>map[string]interface{}\<close> case calls \<open>mergeMapStringInterface(t, nil)\<close>,
  which loops over \<open>t\<close> and then over the nil map. The loop over \<open>t\<close> is written here in
  place; \<open>prepareForLog_GMapSI\<close> below shows that this is the call of the source.
\<close>

partial_function (option) prepareForLog :: "heap \<Rightarrow> gval \<Rightarrow> gval attempt option" where
  "prepareForLog h v = (case v of
      GErr t \<Rightarrow> (case t of None \<Rightarrow> Some NilDereference | Some s \<Rightarrow> Some (Value (GString s)))
    | GMapSI t \<Rightarrow>
        andThen (fmtraverse (prepareForLog h) (entries t))
          (\<lambda>newMap. Some (Value (GMapSI (Some newMap))))
    | GMap t \<Rightarrow>
        andThen (rangeInsert (prepareForLog h) (pairs t) fmempty)
          (\<lambda>newMap. Some (Value (GMapSI (Some newMap))))
    | GPtr None \<Rightarrow> Some (Value GNil)
    | GPtr (Some a) \<Rightarrow> prepareForLog h (h a)
    | GStruct fs \<Rightarrow>
        andThen (rangeInsert (prepareForLog h) (exported fs) fmempty)
          (\<lambda>newMap. Some (Value (GMapSI (Some newMap))))
    | GSlice None \<Rightarrow> Some (Value GNil)
    | GSlice (Some xs) \<Rightarrow>
        andThen (mapM (prepareForLog h) xs) (\<lambda>newArray. Some (Value (GSlice (Some newArray))))
    | GArray xs \<Rightarrow>
        andThen (mapM (prepareForLog h) xs) (\<lambda>newArray. Some (Value (GSlice (Some newArray))))
    | _ \<Rightarrow> Some (Value v))"

declare prepareForLog.simps [code]

text \<open>The loop over the receiver runs to its end before the loop over the input starts.\<close>

definition mergeMapStringInterface ::
  "heap \<Rightarrow> gomap \<Rightarrow> gomap \<Rightarrow> (string, gval) fmap attempt option" where
  "mergeMapStringInterface h receiver input =
     andThen (fmtraverse (prepareForLog h) (entries receiver)) (\<lambda>r.
     andThen (fmtraverse (prepareForLog h) (entries input)) (\<lambda>i.
       Some (Value (r ++\<^sub>f i))))"

text \<open>
  A value that the sanitizer can take: its unfolding through the heap is finite (every
  pointer chain that the sanitizer follows ends) and \<open>Error()\<close> returns on every error
  value met on the way. Fields of a struct that are not exported are never read, so nothing
  is asked of them.
\<close>

inductive sanitizable :: "heap \<Rightarrow> gval \<Rightarrow> bool" for h :: heap where
  san_nil: "sanitizable h GNil"
| san_err: "sanitizable h (GErr (Some s))"
| san_bool: "sanitizable h (GBool b)"
| san_int: "sanitizable h (GInt i)"
| san_string: "sanitizable h (GString s)"
| san_other: "sanitizable h (GOther n)"
| san_mapsi: "(\<And>v. v \<in> fmran' (entries t) \<Longrightarrow> sanitizable h v) \<Longrightarrow> sanitizable h (GMapSI t)"
| san_map: "(\<And>v. v \<in> snd ` set (pairs m) \<Longrightarrow> sanitizable h v) \<Longrightarrow> sanitizable h (GMap m)"
| san_nilptr: "sanitizable h (GPtr None)"
| san_ptr: "sanitizable h (h a) \<Longrightarrow> sanitizable h (GPtr (Some a))"
| san_struct: "(\<And>v. v \<in> snd ` set (exported fs) \<Longrightarrow> sanitizable h v) \<Longrightarrow> sanitizable h (GStruct fs)"
| san_nilslice: "sanitizable h (GSlice None)"
| san_slice: "(\<And>v. v \<in> set xs \<Longrightarrow> sanitizable h v) \<Longrightarrow> sanitizable h (GSlice (Some xs))"
| san_array: "(\<And>v. v \<in> set xs \<Longrightarrow> sanitizable h v) \<Longrightarrow> sanitizable h (GArray xs)"
section \<open>Severity levels\<close>

definition Trace :: string where "Trace = ''trace''"
definition Debug :: string where "Debug = ''debug''"
definition Info :: string where "Info = ''info''"
definition Warn :: string where "Warn = ''warn''"
definition Error :: string where "Error = ''error''"
definition Fatal :: string where "Fatal = ''fatal''"
definition Panic :: string where "Panic = ''panic''"

definition levels :: "(string \<times> int) list" where
  "levels = [(Trace, 0), (Debug, 1), (Info, 2), (Warn, 3), (Error, 4), (Fatal, 5), (Panic, 6)]"

text \<open>\<open>levels[lvl]\<close>: indexing a Go map with a key it does not hold yields the zero value.\<close>

definition levelsAt :: "string \<Rightarrow> int" where
  "levelsAt lvl = (case map_of levels lvl of None \<Rightarrow> 0 | Some n \<Rightarrow> n)"

definition levelPriority :: "string \<Rightarrow> int" where
  "levelPriority lvl = levelsAt lvl"

definition ChannelDefault :: string where "ChannelDefault = ''default''"
definition FormatConsole :: string where "FormatConsole = ''console''"

section \<open>The logger and what surrounds it\<close>

text \<open>
  An error value is given by the string its \<open>Error()\<close> method returns; a variable of the
  interface type \<open>error\<close> may be nil (\<open>None\<close>).
\<close>

datatype goerror = GoError string

fun errorString :: "goerror \<Rightarrow> string" where
  "errorString (GoError s) = s"

type_synonym error = "goerror option"

type_synonym Fields = gomap

text \<open>
  \<open>Metadata\<close> as in the source; \<open>ctx\<close> is the field \<open>context\<close> (a \<open>context.Context\<close>,
  identified by a number, \<open>None\<close> being nil) and \<open>fields'\<close> is the field \<open>fields\<close>.
\<close>

record Metadata =
  channel :: string
  ctx :: "nat option"
  contextFields :: Fields
  fields' :: Fields
  tags :: Fields

type_synonym formatter =
  "string \<Rightarrow> string \<Rightarrow> string \<Rightarrow> error \<Rightarrow> Metadata \<Rightarrow> string \<times> error"

text \<open>
  A hook is identified by a number, so that its being fired can be observed; \<open>Fire\<close> is the
  caller's code and is taken to return, with an error or nil, and not to write through the
  pointer to the metadata that it is given. A resolver maps a context to a map of fields.
\<close>

record LoggerHook =
  hookId :: nat
  Fire :: "string \<Rightarrow> string \<Rightarrow> error \<Rightarrow> Metadata \<Rightarrow> error"

type_synonym ContextFieldsResolver = "nat \<Rightarrow> gomap"

text \<open>
  The struct \<open>logger\<close>. The clock, the writer and the mutex are references to objects shared
  between copies; each is given by the number of the object it refers to. \<open>output'\<close> is
  the field \<open>output\<close>.
\<close>

record logger =
  clock :: nat
  output' :: nat
  outputLck :: nat
  ctxResolver :: "ContextFieldsResolver list"
  hooks :: "LoggerHook list"
  level :: int
  format :: string
  timestampFormat :: string
  data :: Metadata

text \<open>
  What the logger calls from outside its own file, taken as parameters: the table \<open>formatters\<close> (a format name that is not registered yields the nil
  function), \<open>FormatTime\<close>, the reading of a clock, \<open>tracing.GetSpan\<close> (the span of a
  context, if any), \<open>fmt.Sprint\<close> and \<open>fmt.Sprintf\<close>, and the error that \<open>Write\<close> on a
  given writer returns for a given buffer.
\<close>

record env =
  formatters :: "string \<Rightarrow> formatter option"
  FormatTime :: "nat \<Rightarrow> string \<Rightarrow> string"
  Now :: "nat \<Rightarrow> nat"
  GetSpan :: "nat \<Rightarrow> nat option"
  Sprint :: "gval list \<Rightarrow> string"
  Sprintf :: "string \<Rightarrow> gval list \<Rightarrow> string"
  Write :: "nat \<Rightarrow> string \<Rightarrow> error"

text \<open>
  Effects are recorded in order: an error added to a span, a hook fired, a buffer passed to
  \<open>Write\<close> of a writer, a line printed on \<open>os.Stderr\<close>.
\<close>

datatype event =
    SpanAddError nat error
  | HookFire nat
  | SinkWrite nat string
  | StderrWrite string

text \<open>
  The state: the heap that pointers in logged values refer to, the call stack that
  \<open>runtime.Caller\<close> sees from inside \<open>getStackTrace\<close> (frame 0 is \<open>getStackTrace\<close> itself;
  a frame is a function name and a line), the effects so far, and the allocated \<open>logger\<close>
  structs (a \<open>*logger\<close> is an index into this list; an index outside it is the nil pointer).
\<close>

record world =
  memory :: heap
  callers :: "(string \<times> int) list"
  trace :: "event list"
  loggers :: "logger list"

text \<open>
  How a call ends: it returns, it panics, the process exits, or it never returns. A panic
  of the sanitizer (\<open>Error()\<close> called on a nil receiver) is the panic \<open>NilPointer\<close> of the
  call that sanitizes.
\<close>

datatype panic =
    PanicValue error
  | IndexOutOfRange int nat
  | NilFunc
  | NilPointer

datatype 'a result = Return 'a | Panicked panic | Exited int | NoReturn

definition emit :: "event \<Rightarrow> world \<Rightarrow> world" where
  "emit ev w = w\<lparr>trace := trace w @ [ev]\<rparr>"

fun sinkWrites :: "event list \<Rightarrow> string list" where
  "sinkWrites [] = []"
| "sinkWrites (SinkWrite out buffer # evs) = buffer # sinkWrites evs"
| "sinkWrites (_ # evs) = sinkWrites evs"


section \<open>getStackTrace\<close>

definition newline :: string where "newline = [CHR 0x0A]"
definition tab :: string where "tab = [CHR 0x09]"

text \<open>\<open>strconv.Itoa\<close>: the decimal digits of an integer.\<close>

fun digits :: "nat \<Rightarrow> string" where
  "digits n =
     (if n < 10 then [''0123456789'' ! n] else digits (n div 10) @ [''0123456789'' ! (n mod 10)])"

declare digits.simps [simp del]

definition Itoa :: "int \<Rightarrow> string" where
  "Itoa i = (if i < 0 then ''-'' @ digits (nat (- i)) else digits (nat i))"

definition traceLine :: "string \<times> int \<Rightarrow> string" where
  "traceLine fr = tab @ fst fr @ '':'' @ Itoa (snd fr) @ newline"

definition maxDepth :: nat where "maxDepth = 50"

text \<open>\<open>runtime.Caller(skip)\<close>: the frame \<open>skip\<close> levels up, not ok beyond the stack.\<close>

definition Caller :: "(string \<times> int) list \<Rightarrow> nat \<Rightarrow> (string \<times> int) option" where
  "Caller cs skip = (if skip < length cs then Some (cs ! skip) else None)"

text \<open>The first loop: \<open>for depth = 0; depth < maxDepth; depth++\<close>, left when a frame is not ok.\<close>

function captureLoop :: "(string \<times> int) list \<Rightarrow> nat \<Rightarrow> string list \<Rightarrow> nat \<times> string list" where
  "captureLoop cs depth traces =
     (if depth < maxDepth then
        (case Caller cs depth of
           None \<Rightarrow> (depth, traces)
         | Some fr \<Rightarrow> captureLoop cs (depth + 1) (traces[depth := traceLine fr]))
      else (depth, traces))"
  by pat_completeness auto
termination
  by (relation "measure (\<lambda>(cs, depth, traces). maxDepth - depth)") auto

declare captureLoop.simps [simp del]

text \<open>
  The second loop: \<open>for i := depth; i > depthSkip; i--\<close>, appending \<open>traces[i]\<close>. Indexing a
  slice outside its length panics.
\<close>

function assembleLoop :: "string list \<Rightarrow> int \<Rightarrow> int \<Rightarrow> string \<Rightarrow> string result" where
  "assembleLoop traces depthSkip i s =
     (if i > depthSkip then
        (if 0 \<le> i \<and> i < int (length traces)
         then assembleLoop traces depthSkip (i - 1) (s @ traces ! nat i)
         else Panicked (IndexOutOfRange i (length traces)))
      else Return s)"
  by pat_completeness auto
termination
  by (relation "measure (\<lambda>(traces, depthSkip, i, s). nat (i - depthSkip))") auto

declare assembleLoop.simps [simp del]

text \<open>Go's \<open>int\<close> is taken as 64 bits wide; \<open>int64\<close> is the wrap-around of an addition.\<close>

definition int64 :: "int \<Rightarrow> int" where
  "int64 x = (x + 2 ^ 63) mod 2 ^ 64 - 2 ^ 63"

definition getStackTrace :: "int \<Rightarrow> (string \<times> int) list \<Rightarrow> string result" where
  "getStackTrace depthSkip cs =
     (let depthSkip' = int64 (depthSkip + 1);
          (depth, traces) = captureLoop cs 0 (replicate maxDepth [])
      in assembleLoop traces depthSkip' (int depth) newline)"

section \<open>Writing a record\<close>

definition failedToWrite :: "goerror \<Rightarrow> string" where
  "failedToWrite er = ''Failed to write to log, '' @ errorString er @ newline"

text \<open>
  \<open>logger_write\<close> is \<open>(l *logger) write\<close>: under the lock, one call of \<open>Write\<close> on the
  logger's writer; an error of the writer is printed on \<open>os.Stderr\<close>. Calls are sequential
  here, so the lock is always free.
\<close>

definition logger_write :: "env \<Rightarrow> logger \<Rightarrow> string \<Rightarrow> world \<Rightarrow> world" where
  "logger_write e l buffer w =
     (let w1 = emit (SinkWrite (output' l) buffer) w in
      case Write e (output' l) buffer of
        None \<Rightarrow> w1
      | Some er \<Rightarrow> emit (StderrWrite (failedToWrite er)) w1)"

text \<open>
  \<open>format_and_write\<close> is the common tail of \<open>log\<close> and \<open>err\<close>: look the formatter up and call
  it (calling the nil function panics), print a formatter error on \<open>os.Stderr\<close>, write the
  buffer.
\<close>

definition format_and_write ::
  "env \<Rightarrow> logger \<Rightarrow> string \<Rightarrow> string \<Rightarrow> error \<Rightarrow> Metadata \<Rightarrow> world \<Rightarrow> world \<times> unit result" where
  "format_and_write e l lvl msg logErr d w =
     (let timestamp = FormatTime e (Now e (clock l)) (timestampFormat l) in
      case formatters e (format l) of
        None \<Rightarrow> (w, Panicked NilFunc)
      | Some fmt \<Rightarrow>
          (let (buffer, ferr) = fmt timestamp lvl msg logErr d;
               w1 = (case ferr of None \<Rightarrow> w | Some er \<Rightarrow> emit (StderrWrite (failedToWrite er)) w)
           in (logger_write e l buffer w1, Return ())))"

text \<open>\<open>(l *logger) err\<close>: the record of a hook's error, at level \<open>Error\<close>, with the logger's own data.\<close>

definition err :: "env \<Rightarrow> logger \<Rightarrow> goerror \<Rightarrow> world \<Rightarrow> world \<times> unit result" where
  "err e l er w = format_and_write e l Error (errorString er) (Some er) (data l) w"

text \<open>The loop over the hooks in \<open>log\<close>.\<close>

fun fireHooks ::
  "env \<Rightarrow> logger \<Rightarrow> LoggerHook list \<Rightarrow> string \<Rightarrow> string \<Rightarrow> error \<Rightarrow> Metadata \<Rightarrow> world \<Rightarrow>
   world \<times> unit result" where
  "fireHooks e l [] lvl msg logErr cpyData w = (w, Return ())"
| "fireHooks e l (h # hs) lvl msg logErr cpyData w =
     (let w1 = emit (HookFire (hookId h)) w in
      case Fire h lvl msg logErr cpyData of
        None \<Rightarrow> fireHooks e l hs lvl msg logErr cpyData w1
      | Some er \<Rightarrow>
          (case err e l er w1 of
             (w2, Return _) \<Rightarrow> fireHooks e l hs lvl msg logErr cpyData w2
           | (w2, r) \<Rightarrow> (w2, r)))"

definition log ::
  "env \<Rightarrow> logger \<Rightarrow> string \<Rightarrow> string \<Rightarrow> error \<Rightarrow> Fields \<Rightarrow> world \<Rightarrow> world \<times> unit result" where
  "log e l lvl msg logErr flds w =
     (let levelNo = levelsAt lvl in
      if levelNo < level l then (w, Return ())
      else
        (case mergeMapStringInterface (memory w) (fields' (data l)) flds of
           None \<Rightarrow> (w, NoReturn)
         | Some NilDereference \<Rightarrow> (w, Panicked NilPointer)
         | Some (Value merged) \<Rightarrow>
             (let cpyData = (data l)\<lparr>fields' := Some merged\<rparr> in
              case fireHooks e l (hooks l) lvl msg logErr cpyData w of
                (w1, Return _) \<Rightarrow> format_and_write e l lvl msg logErr cpyData w1
              | (w1, r) \<Rightarrow> (w1, r))))"

text \<open>
  \<open>logError\<close>: the arguments of the call of \<open>log\<close> are evaluated before the call, so
  \<open>getStackTrace(1)\<close> runs first.
\<close>

definition logError ::
  "env \<Rightarrow> logger \<Rightarrow> string \<Rightarrow> error \<Rightarrow> string \<Rightarrow> world \<Rightarrow> world \<times> unit result" where
  "logError e l lvl er msg w =
     (let w1 = (case ctx (data l) of
                  None \<Rightarrow> w
                | Some c \<Rightarrow>
                    (case GetSpan e c of
                       None \<Rightarrow> w
                     | Some span \<Rightarrow> emit (SpanAddError span er) w))
      in case getStackTrace 1 (callers w1) of
           Return stacktrace \<Rightarrow>
             log e l lvl msg er (Some (fmupd ''stacktrace'' (GString stacktrace) fmempty)) w1
         | Panicked p \<Rightarrow> (w1, Panicked p)
         | Exited n \<Rightarrow> (w1, Exited n)
         | NoReturn \<Rightarrow> (w1, NoReturn))"

section \<open>The logging methods\<close>









text \<open>\<open>os.Exit(1)\<close> and \<open>panic(err)\<close> are reached when \<open>logError\<close> has returned.\<close>

definition logger_Fatal :: "env \<Rightarrow> logger \<Rightarrow> error \<Rightarrow> string \<Rightarrow> world \<Rightarrow> world \<times> unit result" where
  "logger_Fatal e l er msg w =
     (case logError e l Fatal er msg w of
        (w1, Return _) \<Rightarrow> (w1, Exited 1)
      | (w1, r) \<Rightarrow> (w1, r))"

definition logger_Fatalf ::
  "env \<Rightarrow> logger \<Rightarrow> error \<Rightarrow> string \<Rightarrow> gval list \<Rightarrow> world \<Rightarrow> world \<times> unit result" where
  "logger_Fatalf e l er msg args w =
     (case logError e l Fatal er (Sprintf e msg args) w of
        (w1, Return _) \<Rightarrow> (w1, Exited 1)
      | (w1, r) \<Rightarrow> (w1, r))"

definition logger_Panic :: "env \<Rightarrow> logger \<Rightarrow> error \<Rightarrow> string \<Rightarrow> world \<Rightarrow> world \<times> unit result" where
  "logger_Panic e l er msg w =
     (case logError e l Panic er msg w of
        (w1, Return _) \<Rightarrow> (w1, Panicked (PanicValue er))
      | (w1, r) \<Rightarrow> (w1, r))"

definition logger_Panicf ::
  "env \<Rightarrow> logger \<Rightarrow> error \<Rightarrow> string \<Rightarrow> gval list \<Rightarrow> world \<Rightarrow> world \<times> unit result" where
  "logger_Panicf e l er msg args w =
     (case logError e l Panic er (Sprintf e msg args) w of
        (w1, Return _) \<Rightarrow> (w1, Panicked (PanicValue er))
      | (w1, r) \<Rightarrow> (w1, r))"

section \<open>Construction and chaining\<close>

text \<open>
  These methods allocate a \<open>logger\<close> struct: the receiver and the result are pointers, that
  is, indices into \<open>loggers\<close>. Reading a field through the nil pointer panics.
\<close>

definition NewLoggerWithInterfaces :: "nat \<Rightarrow> nat \<Rightarrow> nat \<Rightarrow> world \<Rightarrow> world \<times> nat" where
  "NewLoggerWithInterfaces clk out lck w =
     (w\<lparr>loggers := loggers w @
         [\<lparr>clock = clk, output' = out, outputLck = lck, ctxResolver = [], hooks = [],
           level = levelPriority Info, format = FormatConsole, timestampFormat = [],
           data = \<lparr>channel = ChannelDefault, ctx = None, contextFields = Some fmempty,
                    fields' = Some fmempty, tags = Some fmempty\<rparr>\<rparr>]\<rparr>,
      length (loggers w))"

definition copy :: "nat \<Rightarrow> world \<Rightarrow> world \<times> nat result" where
  "copy l w =
     (if l < length (loggers w) then
        (let r = loggers w ! l in
         (w\<lparr>loggers := loggers w @
             [\<lparr>clock = clock r, output' = output' r, outputLck = outputLck r,
               ctxResolver = ctxResolver r, hooks = hooks r, level = level r,
               format = format r, timestampFormat = timestampFormat r, data = data r\<rparr>]\<rparr>,
          Return (length (loggers w))))
      else (w, Panicked NilPointer))"

text \<open>An assignment through the pointer \<open>cpy\<close> to the field \<open>data\<close>.\<close>

definition set_data :: "nat \<Rightarrow> (Metadata \<Rightarrow> Metadata) \<Rightarrow> world \<Rightarrow> world" where
  "set_data cpy f w =
     w\<lparr>loggers := (loggers w)[cpy := (loggers w ! cpy)\<lparr>data := f (data (loggers w ! cpy))\<rparr>]\<rparr>"

definition WithChannel :: "nat \<Rightarrow> string \<Rightarrow> world \<Rightarrow> world \<times> nat result" where
  "WithChannel l ch w =
     (case copy l w of
        (w1, Return cpy) \<Rightarrow> (set_data cpy (\<lambda>d. d\<lparr>channel := ch\<rparr>) w1, Return cpy)
      | (w1, r) \<Rightarrow> (w1, r))"

text \<open>The loop over the resolvers in \<open>WithContext\<close>, each pass assigning \<open>cpy.data.contextFields\<close>.\<close>

fun resolveLoop :: "nat \<Rightarrow> ContextFieldsResolver list \<Rightarrow> nat \<Rightarrow> world \<Rightarrow> world \<times> unit result" where
  "resolveLoop cpy [] c w = (w, Return ())"
| "resolveLoop cpy (r # rs) c w =
     (case mergeMapStringInterface (memory w) (contextFields (data (loggers w ! cpy))) (r c) of
        None \<Rightarrow> (w, NoReturn)
      | Some NilDereference \<Rightarrow> (w, Panicked NilPointer)
      | Some (Value merged) \<Rightarrow>
          resolveLoop cpy rs c (set_data cpy (\<lambda>d. d\<lparr>contextFields := Some merged\<rparr>) w))"

definition WithContext :: "nat \<Rightarrow> nat option \<Rightarrow> world \<Rightarrow> world \<times> nat result" where
  "WithContext l c w =
     (case c of
        None \<Rightarrow> (w, Return l)
      | Some cx \<Rightarrow>
          (case copy l w of
             (w1, Return cpy) \<Rightarrow>
               (case resolveLoop cpy (ctxResolver (loggers w1 ! l)) cx
                       (set_data cpy (\<lambda>d. d\<lparr>ctx := Some cx\<rparr>) w1) of
                  (w2, Return _) \<Rightarrow> (w2, Return cpy)
                | (w2, Panicked p) \<Rightarrow> (w2, Panicked p)
                | (w2, Exited n) \<Rightarrow> (w2, Exited n)
                | (w2, NoReturn) \<Rightarrow> (w2, NoReturn))
           | (w1, r) \<Rightarrow> (w1, r)))"

definition WithFields :: "nat \<Rightarrow> gomap \<Rightarrow> world \<Rightarrow> world \<times> nat result" where
  "WithFields l flds w =
     (case copy l w of
        (w1, Return cpy) \<Rightarrow>
          (case mergeMapStringInterface (memory w1) (fields' (data (loggers w1 ! l))) flds of
             None \<Rightarrow> (w1, NoReturn)
           | Some NilDereference \<Rightarrow> (w1, Panicked NilPointer)
           | Some (Value merged) \<Rightarrow> (set_data cpy (\<lambda>d. d\<lparr>fields' := Some merged\<rparr>) w1, Return cpy))
      | (w1, r) \<Rightarrow> (w1, r))"

section \<open>What the statements speak about\<close>


definition fields_sanitizable :: "heap \<Rightarrow> logger \<Rightarrow> bool" where
  "fields_sanitizable h l =
     fmpred (\<lambda>_ v. returns_value (prepareForLog h v)) (entries (fields' (data l)))"

definition timestamp_of :: "env \<Rightarrow> logger \<Rightarrow> string" where
  "timestamp_of e l = FormatTime e (Now e (clock l)) (timestampFormat l)"

definition record_events ::
  "env \<Rightarrow> logger \<Rightarrow> formatter \<Rightarrow> string \<Rightarrow> string \<Rightarrow> error \<Rightarrow> Metadata \<Rightarrow> event list" where
  "record_events e l fmt lvl msg logErr d =
     (let (buffer, ferr) = fmt (timestamp_of e l) lvl msg logErr d in
      (case ferr of None \<Rightarrow> [] | Some er \<Rightarrow> [StderrWrite (failedToWrite er)]) @
      [SinkWrite (output' l) buffer] @
      (case Write e (output' l) buffer of None \<Rightarrow> [] | Some er \<Rightarrow> [StderrWrite (failedToWrite er)]))"

definition failures :: "LoggerHook list \<Rightarrow> string \<Rightarrow> string \<Rightarrow> error \<Rightarrow> Metadata \<Rightarrow> goerror list" where
  "failures hs lvl msg logErr d = List.map_filter (\<lambda>h. Fire h lvl msg logErr d) hs"

fun hook_events ::
  "env \<Rightarrow> logger \<Rightarrow> formatter \<Rightarrow> LoggerHook list \<Rightarrow> string \<Rightarrow> string \<Rightarrow> error \<Rightarrow> Metadata \<Rightarrow> event list" where
  "hook_events e l fmt [] lvl msg logErr d = []"
| "hook_events e l fmt (h # hs) lvl msg logErr d =
     HookFire (hookId h) #
     (case Fire h lvl msg logErr d of
        None \<Rightarrow> []
      | Some er \<Rightarrow> record_events e l fmt Error (errorString er) (Some er) (data l)) @
     hook_events e l fmt hs lvl msg logErr d"

text \<open>The first step of \<open>logError\<close>: the error added to the span of the context, if any.\<close>

definition span_world :: "env \<Rightarrow> logger \<Rightarrow> error \<Rightarrow> world \<Rightarrow> world" where
  "span_world e l er w =
     (case ctx (data l) of
        None \<Rightarrow> w
      | Some c \<Rightarrow> (case GetSpan e c of None \<Rightarrow> w | Some span \<Rightarrow> emit (SpanAddError span er) w))"

definition span_events :: "env \<Rightarrow> logger \<Rightarrow> error \<Rightarrow> event list" where
  "span_events e l er =
     (case ctx (data l) of
        None \<Rightarrow> []
      | Some c \<Rightarrow> (case GetSpan e c of None \<Rightarrow> [] | Some span \<Rightarrow> [SpanAddError span er]))"

text \<open>
  A call of a logging method, to speak of every call at once. \<open>CallTrace\<close> is the shared
  path \<open>log\<close> at level \<open>trace\<close>: the logger has no method of its own for that level.
\<close>

datatype call =
    CallTrace string
  | CallDebug "gval list" | CallDebugf string "gval list"
  | CallInfo "gval list" | CallInfof string "gval list"
  | CallWarn "gval list" | CallWarnf string "gval list"
  | CallError error string | CallErrorf error string "gval list"
  | CallFatal error string | CallFatalf error string "gval list"
  | CallPanic error string | CallPanicf error string "gval list"







text \<open>
  \<open>shares r c\<close>: the logger \<open>c\<close> has the settings and the shared objects of \<open>r\<close>.
  \<open>preserved w w'\<close>: every logger allocated in \<open>w\<close> is the same in \<open>w'\<close>, and so are the
  heap, the stack and the effects.
\<close>

definition shares :: "logger \<Rightarrow> logger \<Rightarrow> bool" where
  "shares r c \<longleftrightarrow>
     clock c = clock r \<and> output' c = output' r \<and> outputLck c = outputLck r \<and>
     ctxResolver c = ctxResolver r \<and> hooks c = hooks r \<and> level c = level r \<and>
     format c = format r \<and> timestampFormat c = timestampFormat r"

definition preserved :: "world \<Rightarrow> world \<Rightarrow> bool" where
  "preserved w w' \<longleftrightarrow>
     take (length (loggers w)) (loggers w') = loggers w \<and>
     memory w' = memory w \<and> callers w' = callers w \<and> trace w' = trace w"

section \<open>Sample inputs\<close>

text \<open>
  \<open>ring\<close> is the heap of a one-element cyclic list: address 0 holds a struct
  \<open>Node{Next: p}\<close> where \<open>p\<close> is the pointer to address 0. The other samples are a heap with
  an integer at address 0, a struct with exported and unexported fields, two maps with
  the key \<open>b\<close> in common, and a map that holds a nil pointer of a type whose \<open>Error()\<close>
  reads its receiver.
\<close>

definition ring :: heap where
  "ring = (\<lambda>_. GStruct [(''Next'', True, GPtr (Some 0))])"

definition sample_heap :: heap where
  "sample_heap = (\<lambda>_. GNil)(0 := GInt 7)"

definition sample_struct :: gval where
  "sample_struct = GStruct
     [(''Name'', True, GString ''x''), (''secret'', False, GInt 1),
      (''Items'', True, GSlice (Some [])), (''Missing'', True, GSlice None),
      (''Ref'', True, GPtr (Some 0)), (''Cause'', True, GErr (Some ''boom''))]"

definition sample_receiver :: gomap where
  "sample_receiver = Some (fmupd ''a'' (GInt 1) (fmupd ''b'' (GInt 2) fmempty))"

definition sample_input :: gomap where
  "sample_input = Some (fmupd ''b'' (GErr (Some ''boom'')) (fmupd ''c'' (GPtr None) fmempty))"

definition nil_error_input :: gomap where
  "nil_error_input = Some (fmupd ''cause'' (GErr None) fmempty)"

definition ring_input :: gomap where
  "ring_input = Some (fmupd ''self'' (GPtr (Some 0)) fmempty)"

text \<open>
  Two call stacks, of 50 frames and of 5; an environment with one registered format, whose
  formatter and writer never fail; a logger at level \<open>info\<close> with one hook that always
  fails, and the same logger at a level above every registered one; a state for each stack.
\<close>

definition deep_stack :: "(string \<times> int) list" where
  "deep_stack = replicate 50 (''main.recurse'', 12)"

definition short_stack :: "(string \<times> int) list" where
  "short_stack = [(''mon.getStackTrace'', 333), (''mon.(*logger).logError'', 270),
     (''mon.(*logger).Error'', 233), (''main.save'', 41), (''main.main'', 7)]"

definition sample_formatter :: formatter where
  "sample_formatter ts lvl msg logErr d = (lvl @ '': '' @ msg, None)"

definition sample_env :: env where
  "sample_env = \<lparr>formatters = (\<lambda>f. if f = FormatConsole then Some sample_formatter else None),
     FormatTime = (\<lambda>t f. []), Now = (\<lambda>c. 0), GetSpan = (\<lambda>c. Some 7),
     Sprint = (\<lambda>args. ''created''), Sprintf = (\<lambda>msg args. msg), Write = (\<lambda>out buffer. None)\<rparr>"

definition failing_hook :: LoggerHook where
  "failing_hook = \<lparr>hookId = 1, Fire = (\<lambda>lvl msg logErr d. Some (GoError ''hook down''))\<rparr>"

definition sample_logger :: logger where
  "sample_logger = \<lparr>clock = 0, output' = 0, outputLck = 0, ctxResolver = [],
     hooks = [failing_hook], level = levelPriority Info, format = FormatConsole,
     timestampFormat = [],
     data = \<lparr>channel = ChannelDefault, ctx = Some 3, contextFields = Some fmempty,
              fields' = Some fmempty, tags = Some fmempty\<rparr>\<rparr>"

definition sample_world :: world where
  "sample_world = \<lparr>memory = sample_heap, callers = short_stack, trace = [], loggers = [sample_logger]\<rparr>"

definition deep_world :: world where
  "deep_world = sample_world\<lparr>callers := deep_stack\<rparr>"


section \<open>Properties of the loops\<close>

lemma andThen_simps [simp]:
  "andThen None k = None"
  "andThen (Some NilDereference) k = Some NilDereference"
  "andThen (Some (Value a)) k = k a"
  by (simp_all add: andThen_def)

lemma andThen_Value_iff:
  "andThen m k = Some (Value r) \<longleftrightarrow> (\<exists>a. m = Some (Value a) \<and> k a = Some (Value r))"
proof (cases m)
  case None
  then show ?thesis by simp
next
  case (Some x)
  then show ?thesis by (cases x) simp_all
qed

lemma andThen_Some_D: "andThen m k = Some r \<Longrightarrow> \<exists>y. m = Some y"
  by (cases m) simp_all

lemma returns_value_iff: "returns_value r \<longleftrightarrow> (\<exists>w. r = Some (Value w))"
  by (auto simp: returns_value_def split: option.splits attempt.splits)

lemma returns_value_simps [simp]:
  "returns_value None = False"
  "returns_value (Some NilDereference) = False"
  "returns_value (Some (Value a)) = True"
  by (simp_all add: returns_value_def)

lemma mapM_Value_iff:
  "mapM f xs = Some (Value ys) \<longleftrightarrow> list_all2 (\<lambda>x y. f x = Some (Value y)) xs ys"
proof (induction xs arbitrary: ys)
  case Nil
  show ?case by auto
next
  case (Cons x xs)
  show ?case
    by (cases ys) (auto simp: Cons.IH andThen_Value_iff)
qed

lemma mapM_fixed: "(\<And>x. x \<in> set xs \<Longrightarrow> f x = Some (Value x)) \<Longrightarrow> mapM f xs = Some (Value xs)"
  by (induction xs) auto

lemma mapM_total:
  "(\<And>x. x \<in> set xs \<Longrightarrow> \<exists>y. f x = Some (Value y)) \<Longrightarrow> \<exists>ys. mapM f xs = Some (Value ys)"
  by (induction xs) fastforce+

lemma fmtraverse_Value_iff:
  "fmtraverse f m = Some (Value r) \<longleftrightarrow>
     (\<forall>v \<in> fmran' m. \<exists>w. f v = Some (Value w)) \<and> r = fmmap (\<lambda>v. value_of (the (f v))) m"
proof -
  have a: "fmpred (\<lambda>_ v. returns_value (f v)) m \<longleftrightarrow> (\<forall>v \<in> fmran' m. \<exists>w. f v = Some (Value w))"
    by (auto simp: fmpred_iff fmlookup_ran'_iff returns_value_iff)
  have b: "fmpred (\<lambda>_ v. f v \<noteq> None) m" if "\<forall>v \<in> fmran' m. \<exists>w. f v = Some (Value w)"
    using that by (auto simp: fmpred_iff fmlookup_ran'_iff)
  show ?thesis
    using b by (auto simp: fmtraverse_def a)
qed

lemma fmtraverse_lookup:
  assumes "fmtraverse f m = Some (Value r)" and "fmlookup m k = Some v"
  shows "\<exists>y. fmlookup r k = Some y \<and> f v = Some (Value y)"
proof -
  from assms(2) have "v \<in> fmran' m" by (rule fmran'I)
  with assms show ?thesis by (auto simp: fmtraverse_Value_iff)
qed

lemma fmtraverse_dom: "fmtraverse f m = Some (Value r) \<Longrightarrow> fmdom' r = fmdom' m"
  by (simp add: fmtraverse_Value_iff)

lemma fmtraverse_ran:
  assumes "fmtraverse f m = Some (Value r)" and "w \<in> fmran' r"
  shows "\<exists>v \<in> fmran' m. f v = Some (Value w)"
proof -
  from assms(2) obtain k where k: "fmlookup r k = Some w" by (auto simp: fmlookup_ran'_iff)
  then have "k \<in> fmdom' r" by (rule fmdom'I)
  then have "k \<in> fmdom' m" by (simp add: fmtraverse_dom[OF assms(1)])
  then obtain v where v: "fmlookup m k = Some v" by (auto simp: fmdom'_alt_def fmlookup_dom_iff)
  from fmtraverse_lookup[OF assms(1) v] k have "f v = Some (Value w)" by auto
  with v show ?thesis by (auto dest: fmran'I)
qed

lemma fmtraverse_fixed:
  assumes "\<And>v. v \<in> fmran' m \<Longrightarrow> f v = Some (Value v)"
  shows "fmtraverse f m = Some (Value m)"
proof -
  have "fmmap (\<lambda>v. value_of (the (f v))) m = fmmap (\<lambda>v. v) m"
    by (rule fmap.map_cong) (auto simp: assms)
  then have "fmmap (\<lambda>v. value_of (the (f v))) m = m" by (simp add: fmap.map_ident)
  moreover have "\<forall>v \<in> fmran' m. \<exists>w. f v = Some (Value w)" by (simp add: assms)
  ultimately show ?thesis by (simp add: fmtraverse_Value_iff)
qed

lemma fmtraverse_total:
  "(\<And>v. v \<in> fmran' m \<Longrightarrow> \<exists>w. f v = Some (Value w)) \<Longrightarrow> \<exists>r. fmtraverse f m = Some (Value r)"
  by (auto simp: fmtraverse_Value_iff)

lemma rangeInsert_total:
  "(\<And>v. v \<in> snd ` set kvs \<Longrightarrow> \<exists>w. f v = Some (Value w)) \<Longrightarrow>
   \<exists>r. rangeInsert f kvs newMap = Some (Value r)"
proof (induction kvs arbitrary: newMap)
  case Nil
  show ?case by simp
next
  case (Cons kv kvs)
  obtain k v where kv: "kv = (k, v)" by (cases kv)
  from Cons.prems[of v] obtain w where w: "f v = Some (Value w)" by (auto simp: kv)
  have "\<exists>r. rangeInsert f kvs (fmupd k w newMap) = Some (Value r)"
    by (rule Cons.IH) (rule Cons.prems, auto)
  with w show ?case by (simp add: kv)
qed

lemma rangeInsert_ran:
  assumes "rangeInsert f kvs newMap = Some (Value r)" and "w \<in> fmran' r"
  shows "w \<in> fmran' newMap \<or> (\<exists>v \<in> snd ` set kvs. f v = Some (Value w))"
  using assms
proof (induction kvs arbitrary: newMap)
  case Nil
  then show ?case by simp
next
  case (Cons kv kvs)
  obtain k v where kv: "kv = (k, v)" by (cases kv)
  from Cons.prems(1) obtain y where y: "f v = Some (Value y)"
    and rest: "rangeInsert f kvs (fmupd k y newMap) = Some (Value r)"
    by (auto simp: kv andThen_Value_iff)
  from Cons.IH[OF rest Cons.prems(2)]
  consider "w \<in> fmran' (fmupd k y newMap)" | "\<exists>v \<in> snd ` set kvs. f v = Some (Value w)" by blast
  then show ?case
  proof cases
    case 1
    then obtain k' where "fmlookup (fmupd k y newMap) k' = Some w"
      by (auto simp: fmlookup_ran'_iff)
    then have "w = y \<or> w \<in> fmran' newMap"
      by (auto split: if_splits dest: fmran'I)
    with y show ?thesis by (auto simp: kv)
  next
    case 2
    then show ?thesis by (auto simp: kv)
  qed
qed

lemma rangeInsert_dom:
  "rangeInsert f kvs newMap = Some (Value r) \<Longrightarrow> fmdom' r = fmdom' newMap \<union> fst ` set kvs"
proof (induction kvs arbitrary: newMap)
  case Nil
  then show ?case by simp
next
  case (Cons kv kvs)
  obtain k v where kv: "kv = (k, v)" by (cases kv)
  from Cons.prems obtain y where y: "f v = Some (Value y)"
    and rest: "rangeInsert f kvs (fmupd k y newMap) = Some (Value r)"
    by (auto simp: kv andThen_Value_iff)
  from Cons.IH[OF rest] show ?case by (auto simp: kv)
qed

lemma rangeInsert_lookup_notin:
  "rangeInsert f kvs newMap = Some (Value r) \<Longrightarrow> k \<notin> fst ` set kvs \<Longrightarrow>
   fmlookup r k = fmlookup newMap k"
proof (induction kvs arbitrary: newMap)
  case Nil
  then show ?case by simp
next
  case (Cons kv kvs)
  obtain k' v where kv: "kv = (k', v)" by (cases kv)
  from Cons.prems obtain y where y: "f v = Some (Value y)"
    and rest: "rangeInsert f kvs (fmupd k' y newMap) = Some (Value r)"
    by (auto simp: kv andThen_Value_iff)
  from Cons.IH[OF rest] Cons.prems(2) show ?case by (auto simp: kv)
qed

lemma rangeInsert_lookup_distinct:
  "rangeInsert f kvs newMap = Some (Value r) \<Longrightarrow> distinct (map fst kvs) \<Longrightarrow> (k, v) \<in> set kvs \<Longrightarrow>
   \<exists>y. fmlookup r k = Some y \<and> f v = Some (Value y)"
proof (induction kvs arbitrary: newMap)
  case Nil
  then show ?case by simp
next
  case (Cons kv kvs)
  obtain k' v' where kv: "kv = (k', v')" by (cases kv)
  from Cons.prems obtain y where y: "f v' = Some (Value y)"
    and rest: "rangeInsert f kvs (fmupd k' y newMap) = Some (Value r)"
    by (auto simp: kv andThen_Value_iff)
  show ?case
  proof (cases "(k, v) = (k', v')")
    case True
    with Cons.prems(2) have "k \<notin> fst ` set kvs" by (auto simp: kv)
    from rangeInsert_lookup_notin[OF rest this] True y show ?thesis by simp
  next
    case False
    with Cons.prems have "(k, v) \<in> set kvs" "distinct (map fst kvs)" by (auto simp: kv)
    from Cons.IH[OF rest this(2) this(1)] show ?thesis .
  qed
qed

section \<open>Properties of prepareForLog\<close>

lemma prepareForLog_unfold:
  "prepareForLog h GNil = Some (Value GNil)"
  "prepareForLog h (GErr None) = Some NilDereference"
  "prepareForLog h (GErr (Some s)) = Some (Value (GString s))"
  "prepareForLog h (GBool b) = Some (Value (GBool b))"
  "prepareForLog h (GInt i) = Some (Value (GInt i))"
  "prepareForLog h (GString s) = Some (Value (GString s))"
  "prepareForLog h (GOther n) = Some (Value (GOther n))"
  "prepareForLog h (GMapSI m) =
     andThen (fmtraverse (prepareForLog h) (entries m)) (\<lambda>newMap. Some (Value (GMapSI (Some newMap))))"
  "prepareForLog h (GMap kvs) =
     andThen (rangeInsert (prepareForLog h) (pairs kvs) fmempty)
       (\<lambda>newMap. Some (Value (GMapSI (Some newMap))))"
  "prepareForLog h (GPtr None) = Some (Value GNil)"
  "prepareForLog h (GPtr (Some a)) = prepareForLog h (h a)"
  "prepareForLog h (GStruct fs) =
     andThen (rangeInsert (prepareForLog h) (exported fs) fmempty)
       (\<lambda>newMap. Some (Value (GMapSI (Some newMap))))"
  "prepareForLog h (GSlice None) = Some (Value GNil)"
  "prepareForLog h (GSlice (Some xs)) =
     andThen (mapM (prepareForLog h) xs) (\<lambda>newArray. Some (Value (GSlice (Some newArray))))"
  "prepareForLog h (GArray xs) =
     andThen (mapM (prepareForLog h) xs) (\<lambda>newArray. Some (Value (GSlice (Some newArray))))"
  by (subst prepareForLog.simps, simp)+

lemma sanitized_map_fixed:
  assumes "\<And>x. x \<in> fmran' newMap \<Longrightarrow> prepareForLog h x = Some (Value x)"
  shows "prepareForLog h (GMapSI (Some newMap)) = Some (Value (GMapSI (Some newMap)))"
  using fmtraverse_fixed[of newMap "prepareForLog h", OF assms]
  by (simp add: prepareForLog_unfold entries_def)

lemma sanitized_slice_fixed:
  assumes "\<And>x. x \<in> set ws \<Longrightarrow> prepareForLog h x = Some (Value x)"
  shows "prepareForLog h (GSlice (Some ws)) = Some (Value (GSlice (Some ws)))"
  using mapM_fixed[of ws "prepareForLog h", OF assms]
  by (simp add: prepareForLog_unfold)

lemma prepareForLog_fixed_aux:
  assumes "prepareForLog h v = Some r"
  shows "\<forall>w. r = Value w \<longrightarrow> prepareForLog h w = Some (Value w)"
proof (rule prepareForLog.raw_induct[where P = "\<lambda>h v r. \<forall>w. r = Value w \<longrightarrow> prepareForLog h w = Some (Value w)", OF _ assms], goal_cases)
  case (1 f h v r)
  note IH0 = "1"(1) and eq0 = "1"(2)
  have IH: "prepareForLog h x = Some (Value x)" if "f h y = Some (Value x)" for x y
    using IH0[OF that] by simp
  have inserted: "prepareForLog h (GMapSI (Some newMap)) = Some (Value (GMapSI (Some newMap)))"
    if "rangeInsert (f h) kvs fmempty = Some (Value newMap)" for kvs newMap
  proof (rule sanitized_map_fixed)
    fix x assume "x \<in> fmran' newMap"
    with rangeInsert_ran[OF that, of x] obtain y where "f h y = Some (Value x)"
      by (auto simp: fmlookup_ran'_iff)
    then show "prepareForLog h x = Some (Value x)" by (rule IH)
  qed
  have listed: "prepareForLog h (GSlice (Some ws)) = Some (Value (GSlice (Some ws)))"
    if "mapM (f h) xs = Some (Value ws)" for xs ws
  proof (rule sanitized_slice_fixed)
    fix x assume "x \<in> set ws"
    with that obtain y where "f h y = Some (Value x)"
      by (auto simp: mapM_Value_iff list_all2_conv_all_nth in_set_conv_nth)
    then show "prepareForLog h x = Some (Value x)" by (rule IH)
  qed
  show ?case
  proof (intro allI impI)
    fix w assume r: "r = Value w"
    note eq = eq0[unfolded r]
    show "prepareForLog h w = Some (Value w)"
    proof (cases v)
      case (GErr t)
      with eq show ?thesis by (cases t) (auto simp: prepareForLog_unfold)
    next
      case (GMapSI t)
      with eq obtain newMap where tr: "fmtraverse (f h) (entries t) = Some (Value newMap)"
        and w: "w = GMapSI (Some newMap)"
        by (auto simp: andThen_Value_iff)
      have "prepareForLog h (GMapSI (Some newMap)) = Some (Value (GMapSI (Some newMap)))"
      proof (rule sanitized_map_fixed)
        fix x assume "x \<in> fmran' newMap"
        with fmtraverse_ran[OF tr] obtain y where "f h y = Some (Value x)" by auto
        then show "prepareForLog h x = Some (Value x)" by (rule IH)
      qed
      with w show ?thesis by simp
    next
      case (GMap t)
      with eq inserted show ?thesis by (auto simp: andThen_Value_iff)
    next
      case (GStruct fs)
      with eq inserted show ?thesis by (auto simp: andThen_Value_iff)
    next
      case (GPtr p)
      with eq IH show ?thesis
        by (cases p) (auto simp: prepareForLog_unfold)
    next
      case (GSlice s)
      with eq listed show ?thesis
        by (cases s) (auto simp: andThen_Value_iff prepareForLog_unfold)
    next
      case (GArray xs)
      with eq listed show ?thesis by (auto simp: andThen_Value_iff)
    qed (use eq in \<open>auto simp: prepareForLog_unfold\<close>)
  qed
qed

lemma prepareForLog_fixed:
  "prepareForLog h v = Some (Value w) \<Longrightarrow> prepareForLog h w = Some (Value w)"
  using prepareForLog_fixed_aux[of h v "Value w"] by simp

lemma prepareForLog_total:
  assumes "sanitizable h v"
  shows "\<exists>w. prepareForLog h v = Some (Value w)"
  using assms
proof (induction rule: sanitizable.induct)
  case (san_mapsi t)
  from fmtraverse_total[of "entries t" "prepareForLog h"] san_mapsi.IH
  obtain r where "fmtraverse (prepareForLog h) (entries t) = Some (Value r)" by blast
  then show ?case by (simp add: prepareForLog_unfold)
next
  case (san_map m)
  from rangeInsert_total[of "pairs m" "prepareForLog h" fmempty] san_map.IH
  obtain r where "rangeInsert (prepareForLog h) (pairs m) fmempty = Some (Value r)" by blast
  then show ?case by (simp add: prepareForLog_unfold)
next
  case (san_struct fs)
  from rangeInsert_total[of "exported fs" "prepareForLog h" fmempty] san_struct.IH
  obtain r where "rangeInsert (prepareForLog h) (exported fs) fmempty = Some (Value r)" by blast
  then show ?case by (simp add: prepareForLog_unfold)
next
  case (san_slice xs)
  from mapM_total[of xs "prepareForLog h"] san_slice.IH
  obtain ws where "mapM (prepareForLog h) xs = Some (Value ws)" by blast
  then show ?case by (simp add: prepareForLog_unfold)
next
  case (san_array xs)
  from mapM_total[of xs "prepareForLog h"] san_array.IH
  obtain ws where "mapM (prepareForLog h) xs = Some (Value ws)" by blast
  then show ?case by (simp add: prepareForLog_unfold)
qed (simp_all add: prepareForLog_unfold)

lemma prepareForLog_ring_aux:
  assumes "prepareForLog h v = Some r"
  shows "h = ring \<longrightarrow> v \<noteq> GPtr (Some 0) \<and> v \<noteq> GStruct [(''Next'', True, GPtr (Some 0))]"
proof (rule prepareForLog.raw_induct[where P = "\<lambda>h v r. h = ring \<longrightarrow> v \<noteq> GPtr (Some 0) \<and> v \<noteq> GStruct [(''Next'', True, GPtr (Some 0))]", OF _ assms], goal_cases)
  case (1 f h v r)
  note IH = "1"(1) and eq = "1"(2)
  show ?case
  proof (intro impI conjI notI)
    assume h: "h = ring" and v: "v = GPtr (Some 0)"
    with eq have "f ring (GStruct [(''Next'', True, GPtr (Some 0))]) = Some r"
      by (simp add: ring_def)
    from IH[OF this] show False by simp
  next
    assume h: "h = ring" and v: "v = GStruct [(''Next'', True, GPtr (Some 0))]"
    with eq have "andThen (andThen (f ring (GPtr (Some 0))) (\<lambda>y. Some (Value (fmupd ''Next'' y fmempty))))
        (\<lambda>newMap. Some (Value (GMapSI (Some newMap)))) = Some r"
      by (simp add: exported_def)
    then obtain y where "f ring (GPtr (Some 0)) = Some y"
      by (blast dest: andThen_Some_D)
    from IH[OF this] show False by simp
  qed
qed

lemma prepareForLog_ring: "prepareForLog ring (GPtr (Some 0)) = None"
proof (cases "prepareForLog ring (GPtr (Some 0))")
  case None
  then show ?thesis .
next
  case (Some r)
  from prepareForLog_ring_aux[OF this] show ?thesis by simp
qed

lemma merge_Value_iff:
  "mergeMapStringInterface h m1 m2 = Some (Value r) \<longleftrightarrow>
     (\<exists>a b. fmtraverse (prepareForLog h) (entries m1) = Some (Value a) \<and>
            fmtraverse (prepareForLog h) (entries m2) = Some (Value b) \<and> r = a ++\<^sub>f b)"
  by (auto simp: mergeMapStringInterface_def andThen_Value_iff)

lemma merge_returns_iff:
  "(\<exists>r. mergeMapStringInterface h m1 m2 = Some (Value r)) \<longleftrightarrow>
     (\<forall>v \<in> fmran' (entries m1) \<union> fmran' (entries m2). \<exists>w. prepareForLog h v = Some (Value w))"
  by (auto simp: merge_Value_iff fmtraverse_Value_iff)

lemma fmtraverse_empty: "fmtraverse f fmempty = Some (Value fmempty)"
  by (simp add: fmtraverse_def)

lemma prepareForLog_GMapSI:
  "prepareForLog h (GMapSI t) =
     andThen (mergeMapStringInterface h t None) (\<lambda>newMap. Some (Value (GMapSI (Some newMap))))"
proof -
  have e: "fmtraverse (prepareForLog h) (entries None) = Some (Value fmempty)"
    by (simp add: fmtraverse_empty entries_def)
  show ?thesis
  proof (cases "fmtraverse (prepareForLog h) (entries t)")
    case None
    then show ?thesis by (simp add: prepareForLog_unfold mergeMapStringInterface_def)
  next
    case (Some x)
    then show ?thesis
      by (cases x) (simp_all add: prepareForLog_unfold mergeMapStringInterface_def e)
  qed
qed

lemma exported_set: "set (exported fs) = {(n, x). (n, True, x) \<in> set fs}"
  by (force simp: exported_def)

lemma exported_names: "map fst (exported fs) = map fst (filter (\<lambda>f. fst (snd f)) fs)"
  by (simp add: exported_def comp_def)

lemma prepareForLog_struct:
  assumes "prepareForLog h (GStruct fs) = Some (Value w)"
  shows "\<exists>newMap. w = GMapSI (Some newMap) \<and>
         fmdom' newMap = {n. \<exists>x. (n, True, x) \<in> set fs} \<and>
         (distinct (map fst (filter (\<lambda>f. fst (snd f)) fs)) \<longrightarrow>
            (\<forall>n x. (n, True, x) \<in> set fs \<longrightarrow>
               (\<exists>y. fmlookup newMap n = Some y \<and> prepareForLog h x = Some (Value y))))"
proof -
  from assms obtain newMap where
    ri: "rangeInsert (prepareForLog h) (exported fs) fmempty = Some (Value newMap)"
    and w': "w = GMapSI (Some newMap)"
    by (auto simp: prepareForLog_unfold andThen_Value_iff)
  have "fst ` set (exported fs) = {n. \<exists>x. (n, True, x) \<in> set fs}"
    by (force simp: exported_set)
  then have "fmdom' newMap = {n. \<exists>x. (n, True, x) \<in> set fs}"
    using rangeInsert_dom[OF ri] by simp
  moreover have "\<exists>y. fmlookup newMap n = Some y \<and> prepareForLog h x = Some (Value y)"
    if "distinct (map fst (filter (\<lambda>f. fst (snd f)) fs))" and "(n, True, x) \<in> set fs" for n x
  proof -
    from that(2) have "(n, x) \<in> set (exported fs)" by (simp add: exported_set)
    moreover from that(1) have "distinct (map fst (exported fs))" by (simp add: exported_names)
    ultimately show ?thesis using rangeInsert_lookup_distinct[OF ri] by blast
  qed
  ultimately show ?thesis using w' by blast
qed

lemma prepareForLog_map:
  assumes "prepareForLog h (GMap t) = Some (Value w)"
  shows "\<exists>newMap. w = GMapSI (Some newMap) \<and> fmdom' newMap = fst ` set (pairs t) \<and>
         (distinct (map fst (pairs t)) \<longrightarrow>
            (\<forall>k x. (k, x) \<in> set (pairs t) \<longrightarrow>
               (\<exists>y. fmlookup newMap k = Some y \<and> prepareForLog h x = Some (Value y))))"
proof -
  from assms obtain newMap where
    ri: "rangeInsert (prepareForLog h) (pairs t) fmempty = Some (Value newMap)"
    and w': "w = GMapSI (Some newMap)"
    by (auto simp: prepareForLog_unfold andThen_Value_iff)
  have "fmdom' newMap = fst ` set (pairs t)"
    using rangeInsert_dom[OF ri] by simp
  moreover have "\<exists>y. fmlookup newMap k = Some y \<and> prepareForLog h x = Some (Value y)"
    if "distinct (map fst (pairs t))" and "(k, x) \<in> set (pairs t)" for k x
    using rangeInsert_lookup_distinct[OF ri that] .
  ultimately show ?thesis using w' by blast
qed

lemma prepareForLog_mapsi:
  assumes "prepareForLog h (GMapSI t) = Some (Value w)"
  shows "\<exists>newMap. w = GMapSI (Some newMap) \<and> fmdom' newMap = fmdom' (entries t) \<and>
         (\<forall>k x. fmlookup (entries t) k = Some x \<longrightarrow>
            (\<exists>y. fmlookup newMap k = Some y \<and> prepareForLog h x = Some (Value y)))"
proof -
  from assms obtain newMap where
    tr: "fmtraverse (prepareForLog h) (entries t) = Some (Value newMap)"
    and w': "w = GMapSI (Some newMap)"
    by (auto simp: prepareForLog_unfold andThen_Value_iff)
  show ?thesis
    using fmtraverse_lookup[OF tr] by (simp add: w' fmtraverse_dom[OF tr])
qed

lemma prepareForLog_list:
  assumes "andThen (mapM (prepareForLog h) xs) (\<lambda>newArray. Some (Value (GSlice (Some newArray))))
     = Some (Value w)"
  shows "\<exists>newArray. w = GSlice (Some newArray) \<and>
         list_all2 (\<lambda>x y. prepareForLog h x = Some (Value y)) xs newArray"
  using assms by (auto simp: andThen_Value_iff mapM_Value_iff)

lemma sanitizable_sample_struct: "sanitizable sample_heap sample_struct"
  unfolding sample_struct_def
proof (rule san_struct)
  fix v
  assume "v \<in> snd ` set (exported [(''Name'', True, GString ''x''), (''secret'', False, GInt 1),
      (''Items'', True, GSlice (Some [])), (''Missing'', True, GSlice None),
      (''Ref'', True, GPtr (Some 0)), (''Cause'', True, GErr (Some ''boom''))])"
  then have "v \<in> {GString ''x'', GSlice (Some []), GSlice None, GPtr (Some 0), GErr (Some ''boom'')}"
    by (simp add: exported_def)
  moreover have "sanitizable sample_heap (GPtr (Some 0))"
    by (rule san_ptr) (simp add: sample_heap_def san_int)
  moreover have "sanitizable sample_heap (GSlice (Some []))"
    by (rule san_slice) simp
  ultimately show "sanitizable sample_heap v"
    using san_string san_nilslice san_err by auto
qed

lemma prepareForLog_sample_struct:
  "prepareForLog sample_heap sample_struct = Some (Value (GMapSI (Some
     (fmupd ''Cause'' (GString ''boom'') (fmupd ''Ref'' (GInt 7) (fmupd ''Missing'' GNil
       (fmupd ''Items'' (GSlice (Some [])) (fmupd ''Name'' (GString ''x'') fmempty))))))))"
  by (simp add: prepareForLog_unfold sample_struct_def sample_heap_def exported_def)

lemma fmtraverse_upd:
  assumes "k \<notin> fmdom' m" and "f v = Some (Value y)"
  shows "fmtraverse f (fmupd k v m) = andThen (fmtraverse f m) (\<lambda>r. Some (Value (fmupd k y r)))"
proof -
  from assms have none: "fmlookup m k = None" by auto
  have upd: "fmpred (\<lambda>_ x. P x) (fmupd k v m) \<longleftrightarrow> fmpred (\<lambda>_ x. P x) m"
    if "P v" for P :: "'b \<Rightarrow> bool"
  proof
    assume a: "fmpred (\<lambda>_ x. P x) (fmupd k v m)"
    show "fmpred (\<lambda>_ x. P x) m"
      unfolding fmpred_iff
    proof (intro allI impI)
      fix x y assume xy: "fmlookup m x = Some y"
      with none have "x \<noteq> k" by auto
      with xy have "fmlookup (fmupd k v m) x = Some y" by simp
      with a show "P y" unfolding fmpred_iff by blast
    qed
  next
    assume a: "fmpred (\<lambda>_ x. P x) m"
    show "fmpred (\<lambda>_ x. P x) (fmupd k v m)"
      unfolding fmpred_iff
    proof (intro allI impI)
      fix x y assume xy: "fmlookup (fmupd k v m) x = Some y"
      show "P y"
      proof (cases "x = k")
        case True
        with xy that show ?thesis by simp
      next
        case False
        with xy have "fmlookup m x = Some y" by simp
        with a show ?thesis unfolding fmpred_iff by blast
      qed
    qed
  qed
  have p1: "fmpred (\<lambda>_ v. f v \<noteq> None) (fmupd k v m) \<longleftrightarrow> fmpred (\<lambda>_ v. f v \<noteq> None) m"
    by (rule upd) (simp add: assms(2))
  have p2: "fmpred (\<lambda>_ v. returns_value (f v)) (fmupd k v m) \<longleftrightarrow>
      fmpred (\<lambda>_ v. returns_value (f v)) m"
    by (rule upd) (simp add: assms(2))
  have p3: "fmmap (\<lambda>v. value_of (the (f v))) (fmupd k v m) =
      fmupd k y (fmmap (\<lambda>v. value_of (the (f v))) m)"
    by (rule fmap_ext) (simp add: assms(2))
  show ?thesis
    unfolding fmtraverse_def p1 p2 p3 by simp
qed

lemma fmtraverse_panics:
  assumes "f v = Some NilDereference"
  shows "fmtraverse f (fmupd k v fmempty) = Some NilDereference"
proof -
  have "fmpred (\<lambda>_ v. f v \<noteq> None) (fmupd k v fmempty)"
    by (auto simp: fmpred_iff assms split: if_splits)
  moreover have "\<not> fmpred (\<lambda>_ v. returns_value (f v)) (fmupd k v fmempty)"
    by (auto simp: fmpred_iff assms split: if_splits)
  ultimately show ?thesis by (simp add: fmtraverse_def)
qed

lemma fmtraverse_diverges:
  assumes "f v = None"
  shows "fmtraverse f (fmupd k v fmempty) = None"
proof -
  have "\<not> fmpred (\<lambda>_ v. f v \<noteq> None) (fmupd k v fmempty)"
    by (auto simp: fmpred_iff assms split: if_splits)
  then show ?thesis by (simp add: fmtraverse_def)
qed

lemma traverse_sample_receiver:
  "fmtraverse (prepareForLog sample_heap) (entries sample_receiver) =
      Some (Value (fmupd ''a'' (GInt 1) (fmupd ''b'' (GInt 2) fmempty)))"
  by (simp add: fmtraverse_upd fmtraverse_empty entries_def sample_receiver_def prepareForLog_unfold)

lemma merge_sample:
  "mergeMapStringInterface sample_heap sample_receiver sample_input =
     Some (Value (fmupd ''b'' (GString ''boom'') (fmupd ''c'' GNil (fmupd ''a'' (GInt 1) (fmupd ''b'' (GInt 2) fmempty)))))"
proof -
  have b: "fmtraverse (prepareForLog sample_heap) (entries sample_input) =
      Some (Value (fmupd ''b'' (GString ''boom'') (fmupd ''c'' GNil fmempty)))"
    by (simp add: fmtraverse_upd fmtraverse_empty entries_def sample_input_def prepareForLog_unfold)
  show ?thesis
    by (simp add: mergeMapStringInterface_def traverse_sample_receiver b)
qed

lemma merge_ring: "mergeMapStringInterface ring ring_input None = None"
proof -
  have "fmtraverse (prepareForLog ring) (entries ring_input) = None"
    unfolding ring_input_def entries_def option.case
    by (rule fmtraverse_diverges) (rule prepareForLog_ring)
  then show ?thesis
    by (simp add: mergeMapStringInterface_def)
qed

lemma merge_nil_error:
  "mergeMapStringInterface sample_heap sample_receiver nil_error_input = Some NilDereference"
proof -
  have "fmtraverse (prepareForLog sample_heap) (entries nil_error_input) = Some NilDereference"
    by (simp add: nil_error_input_def entries_def fmtraverse_panics prepareForLog_unfold)
  then show ?thesis
    by (simp add: mergeMapStringInterface_def traverse_sample_receiver)
qed

lemma sanitizable_sample_maps:
  assumes "v \<in> fmran' (entries sample_receiver) \<union> fmran' (entries sample_input)"
  shows "sanitizable sample_heap v"
proof -
  from assms have "v \<in> {GInt 1, GInt 2, GErr (Some ''boom''), GPtr None}"
    by (auto simp: fmlookup_ran'_iff entries_def sample_receiver_def sample_input_def
        split: if_splits)
  then show ?thesis
    using san_int san_err san_nilptr by auto
qed

text \<open>
  \<open>prepareForLog\<close> returns a value on exactly the values that are \<open>sanitizable\<close>.
\<close>

lemma prepareForLog_sanitizable_aux:
  assumes "prepareForLog h v = Some r"
  shows "is_Value r \<longrightarrow> sanitizable h v"
proof (rule prepareForLog.raw_induct[where P = "\<lambda>h v r. is_Value r \<longrightarrow> sanitizable h v", OF _ assms], goal_cases)
  case (1 f h v r)
  note IH0 = "1"(1) and eq0 = "1"(2)
  have IH: "sanitizable h x" if "f h x = Some (Value y)" for x y
    using IH0[OF that] by simp
  have inserted: "sanitizable h x"
    if "rangeInsert (f h) kvs newMap = Some (Value m)" and "x \<in> snd ` set kvs" for kvs newMap m x
    using that
  proof (induction kvs arbitrary: newMap)
    case Nil
    then show ?case by simp
  next
    case (Cons kv kvs)
    obtain k y where kv: "kv = (k, y)" by (cases kv)
    from Cons.prems(1) obtain z where z: "f h y = Some (Value z)"
      and rest: "rangeInsert (f h) kvs (fmupd k z newMap) = Some (Value m)"
      by (auto simp: kv andThen_Value_iff)
    from Cons.prems(2) have "x = y \<or> x \<in> snd ` set kvs" by (auto simp: kv)
    then show ?case
    proof
      assume "x = y"
      with z show ?thesis by (auto intro: IH)
    next
      assume "x \<in> snd ` set kvs"
      from Cons.IH[OF rest this] show ?thesis .
    qed
  qed
  have listed: "sanitizable h x" if "mapM (f h) xs = Some (Value ws)" and "x \<in> set xs" for xs ws x
  proof -
    from that obtain y where "f h x = Some (Value y)"
      by (auto simp: mapM_Value_iff list_all2_conv_all_nth in_set_conv_nth)
    then show ?thesis by (rule IH)
  qed
  show ?case
  proof
    assume "is_Value r"
    then obtain w where r: "r = Value w" by (cases r) auto
    note eq = eq0[unfolded r]
    show "sanitizable h v"
    proof (cases v)
      case (GErr t)
      with eq show ?thesis by (cases t) (auto intro: sanitizable.intros)
    next
      case (GMapSI t)
      with eq obtain newMap where tr: "fmtraverse (f h) (entries t) = Some (Value newMap)"
        by (auto simp: andThen_Value_iff)
      show ?thesis unfolding GMapSI
      proof (rule san_mapsi)
        fix x assume "x \<in> fmran' (entries t)"
        with tr obtain y where "f h x = Some (Value y)" by (auto simp: fmtraverse_Value_iff)
        then show "sanitizable h x" by (rule IH)
      qed
    next
      case (GMap t)
      with eq obtain newMap where "rangeInsert (f h) (pairs t) fmempty = Some (Value newMap)"
        by (auto simp: andThen_Value_iff)
      from inserted[OF this] show ?thesis unfolding GMap by (rule san_map)
    next
      case (GStruct fs)
      with eq obtain newMap where "rangeInsert (f h) (exported fs) fmempty = Some (Value newMap)"
        by (auto simp: andThen_Value_iff)
      from inserted[OF this] show ?thesis unfolding GStruct by (rule san_struct)
    next
      case (GPtr p)
      show ?thesis
      proof (cases p)
        case None
        with GPtr show ?thesis by (simp add: san_nilptr)
      next
        case (Some a)
        with GPtr eq have "f h (h a) = Some (Value w)" by simp
        from IH[OF this] show ?thesis unfolding GPtr Some by (rule san_ptr)
      qed
    next
      case (GSlice s)
      show ?thesis
      proof (cases s)
        case None
        with GSlice show ?thesis by (simp add: san_nilslice)
      next
        case (Some xs)
        with GSlice eq obtain ws where "mapM (f h) xs = Some (Value ws)"
          by (auto simp: andThen_Value_iff)
        from listed[OF this] show ?thesis unfolding GSlice Some by (rule san_slice)
      qed
    next
      case (GArray xs)
      with eq obtain ws where "mapM (f h) xs = Some (Value ws)"
        by (auto simp: andThen_Value_iff)
      from listed[OF this] show ?thesis unfolding GArray by (rule san_array)
    qed (auto intro: sanitizable.intros)
  qed
qed

lemma prepareForLog_returns_iff:
  "(\<exists>w. prepareForLog h v = Some (Value w)) \<longleftrightarrow> sanitizable h v"
  using prepareForLog_sanitizable_aux[of h v] prepareForLog_total[of h v] by fastforce

lemma merge_sanitizable_iff:
  "(\<exists>r. mergeMapStringInterface h m1 m2 = Some (Value r)) \<longleftrightarrow>
     (\<forall>v \<in> fmran' (entries m1) \<union> fmran' (entries m2). sanitizable h v)"
  by (simp add: merge_returns_iff prepareForLog_returns_iff)

section \<open>Claims about the sanitizer\<close>

text \<open>
  Claim C1, as the code has it. \<open>mergeMapStringInterface\<close> returns a map exactly for the
  pairs of maps \<open>m1\<close> and \<open>m2\<close> all of whose values the sanitizer can take: their unfolding
  through pointers is finite and no error value among them has an \<open>Error()\<close> that panics.
  For such a pair the keys of the result are the keys of \<open>m1\<close> together with those of \<open>m2\<close>;
  a key of \<open>m2\<close> (also one that \<open>m1\<close> has too) carries the sanitized form of the value of
  \<open>m2\<close>, a key of \<open>m1\<close> alone the sanitized form of the value of \<open>m1\<close>. A nil map counts
  as the empty map.
\<close>

theorem mergeMapStringInterface_union:
  "((\<forall>v \<in> fmran' (entries m1) \<union> fmran' (entries m2). sanitizable h v) \<longrightarrow>
      (\<exists>r. mergeMapStringInterface h m1 m2 = Some (Value r) \<and>
         fmdom' r = fmdom' (entries m1) \<union> fmdom' (entries m2) \<and>
         (\<forall>k v. fmlookup (entries m2) k = Some v \<longrightarrow>
            (\<exists>y. fmlookup r k = Some y \<and> prepareForLog h v = Some (Value y))) \<and>
         (\<forall>k v. fmlookup (entries m1) k = Some v \<longrightarrow> k \<notin> fmdom' (entries m2) \<longrightarrow>
            (\<exists>y. fmlookup r k = Some y \<and> prepareForLog h v = Some (Value y))))) \<and>
   ((\<exists>r. mergeMapStringInterface h m1 m2 = Some (Value r)) \<longrightarrow>
      (\<forall>v \<in> fmran' (entries m1) \<union> fmran' (entries m2). sanitizable h v))"
proof (intro conjI impI)
  assume "\<exists>r. mergeMapStringInterface h m1 m2 = Some (Value r)"
  then show "\<forall>v \<in> fmran' (entries m1) \<union> fmran' (entries m2). sanitizable h v"
    by (simp only: merge_sanitizable_iff)
next
  assume "\<forall>v \<in> fmran' (entries m1) \<union> fmran' (entries m2). sanitizable h v"
  then have "\<exists>r. mergeMapStringInterface h m1 m2 = Some (Value r)"
    by (simp only: merge_sanitizable_iff)
  then obtain r a b where m: "mergeMapStringInterface h m1 m2 = Some (Value r)"
    and a: "fmtraverse (prepareForLog h) (entries m1) = Some (Value a)"
    and b: "fmtraverse (prepareForLog h) (entries m2) = Some (Value b)" and r: "r = a ++\<^sub>f b"
    by (auto simp: merge_Value_iff)
  have d: "fmdom' r = fmdom' (entries m1) \<union> fmdom' (entries m2)"
    by (simp add: r fmtraverse_dom[OF a] fmtraverse_dom[OF b])
  have l2: "\<exists>y. fmlookup r k = Some y \<and> prepareForLog h v = Some (Value y)"
    if kv: "fmlookup (entries m2) k = Some v" for k v
  proof -
    from fmtraverse_lookup[OF b kv] obtain y where
      y: "fmlookup b k = Some y" "prepareForLog h v = Some (Value y)" by blast
    from y(1) have "k \<in> fmdom' b" by (rule fmdom'I)
    with y show ?thesis by (simp add: r fmdom'_alt_def)
  qed
  have l1: "\<exists>y. fmlookup r k = Some y \<and> prepareForLog h v = Some (Value y)"
    if kv: "fmlookup (entries m1) k = Some v" and notin: "k \<notin> fmdom' (entries m2)" for k v
  proof -
    from fmtraverse_lookup[OF a kv] obtain y where
      y: "fmlookup a k = Some y" "prepareForLog h v = Some (Value y)" by blast
    from notin have "k \<notin> fmdom' b" by (simp add: fmtraverse_dom[OF b])
    with y show ?thesis by (simp add: r fmdom'_alt_def)
  qed
  from m d l1 l2 show "\<exists>r. mergeMapStringInterface h m1 m2 = Some (Value r) \<and>
         fmdom' r = fmdom' (entries m1) \<union> fmdom' (entries m2) \<and>
         (\<forall>k v. fmlookup (entries m2) k = Some v \<longrightarrow>
            (\<exists>y. fmlookup r k = Some y \<and> prepareForLog h v = Some (Value y))) \<and>
         (\<forall>k v. fmlookup (entries m1) k = Some v \<longrightarrow> k \<notin> fmdom' (entries m2) \<longrightarrow>
            (\<exists>y. fmlookup r k = Some y \<and> prepareForLog h v = Some (Value y)))"
    by blast
qed

theorem mergeMapStringInterface_union_witness:
  "\<exists>r. mergeMapStringInterface sample_heap sample_receiver sample_input = Some (Value r) \<and>
     fmdom' r = fmdom' (entries sample_receiver) \<union> fmdom' (entries sample_input) \<and>
     fmlookup r ''a'' = Some (GInt 1) \<and>
     fmlookup r ''b'' = Some (GString ''boom'') \<and>
     fmlookup r ''c'' = Some GNil"
proof -
  let ?r = "fmupd ''b'' (GString ''boom'') (fmupd ''c'' GNil (fmupd ''a'' (GInt 1) (fmupd ''b'' (GInt 2) fmempty)))"
  have r: "mergeMapStringInterface sample_heap sample_receiver sample_input = Some (Value ?r)"
    by (rule merge_sample)
  have "\<forall>v \<in> fmran' (entries sample_receiver) \<union> fmran' (entries sample_input).
      sanitizable sample_heap v"
    using sanitizable_sample_maps by blast
  with mergeMapStringInterface_union[of sample_receiver sample_input sample_heap] r
  have "fmdom' ?r = fmdom' (entries sample_receiver) \<union> fmdom' (entries sample_input)"
    by auto
  moreover have "fmlookup ?r ''a'' = Some (GInt 1)" "fmlookup ?r ''b'' = Some (GString ''boom'')"
    "fmlookup ?r ''c'' = Some GNil"
    by simp_all
  ultimately show ?thesis using r by blast
qed

text \<open>
  The claim as stated, for every pair of maps, fails twice: with a value that is a pointer
  into \<open>ring\<close> the call never returns, and with a nil pointer of an error type as a value
  it panics.
\<close>

theorem mergeMapStringInterface_returns_counterexample:
  "mergeMapStringInterface ring ring_input None = None \<and>
   mergeMapStringInterface sample_heap sample_receiver nil_error_input = Some NilDereference"
  by (simp add: merge_ring merge_nil_error)

text \<open>
  Claim C2, as the code has it. \<open>prepareForLog\<close> returns a value exactly on the inputs that
  are \<open>sanitizable\<close>: the unfolding through the heap is finite and \<open>Error()\<close> returns on every
  error value met. On such an input the result follows the rules in their order: an error
  becomes the message that \<open>Error()\<close> returns, a nil pointer of a type that is not an error
  type becomes nil, a pointer is sanitized as its pointee, a struct becomes a map keyed by
  the names of its exported fields, the nil slice becomes nil and a slice that is not nil
  becomes a list of the same length (the empty slice, the empty list), a primitive is
  returned as it is. On an error value whose \<open>Error()\<close> panics, a nil pointer of an error
  type for one, the call panics: \<open>case error\<close> is tried before the pointer is looked at.
\<close>

theorem prepareForLog_rules:
  "(sanitizable h v \<longrightarrow> (\<exists>w. prepareForLog h v = Some (Value w) \<and>
    (case v of
       GErr t \<Rightarrow> (\<exists>s. t = Some s \<and> w = GString s)
     | GMapSI t \<Rightarrow> (\<exists>newMap. w = GMapSI (Some newMap) \<and> fmdom' newMap = fmdom' (entries t) \<and>
         (\<forall>k x. fmlookup (entries t) k = Some x \<longrightarrow>
            (\<exists>y. fmlookup newMap k = Some y \<and> prepareForLog h x = Some (Value y))))
     | GMap t \<Rightarrow> (\<exists>newMap. w = GMapSI (Some newMap) \<and> fmdom' newMap = fst ` set (pairs t) \<and>
         (distinct (map fst (pairs t)) \<longrightarrow>
            (\<forall>k x. (k, x) \<in> set (pairs t) \<longrightarrow>
               (\<exists>y. fmlookup newMap k = Some y \<and> prepareForLog h x = Some (Value y)))))
     | GPtr None \<Rightarrow> w = GNil
     | GPtr (Some a) \<Rightarrow> prepareForLog h (h a) = Some (Value w)
     | GStruct fs \<Rightarrow> (\<exists>newMap. w = GMapSI (Some newMap) \<and>
         fmdom' newMap = {n. \<exists>x. (n, True, x) \<in> set fs} \<and>
         (distinct (map fst (filter (\<lambda>f. fst (snd f)) fs)) \<longrightarrow>
            (\<forall>n x. (n, True, x) \<in> set fs \<longrightarrow>
               (\<exists>y. fmlookup newMap n = Some y \<and> prepareForLog h x = Some (Value y)))))
     | GSlice None \<Rightarrow> w = GNil
     | GSlice (Some xs) \<Rightarrow> (\<exists>newArray. w = GSlice (Some newArray) \<and>
         list_all2 (\<lambda>x y. prepareForLog h x = Some (Value y)) xs newArray)
     | GArray xs \<Rightarrow> (\<exists>newArray. w = GSlice (Some newArray) \<and>
         list_all2 (\<lambda>x y. prepareForLog h x = Some (Value y)) xs newArray)
     | _ \<Rightarrow> w = v))) \<and>
   ((\<exists>w. prepareForLog h v = Some (Value w)) \<longrightarrow> sanitizable h v) \<and>
   prepareForLog h (GErr None) = Some NilDereference"
proof (intro conjI impI)
  show "prepareForLog h (GErr None) = Some NilDereference"
    by (simp add: prepareForLog_unfold)
next
  assume "\<exists>w. prepareForLog h v = Some (Value w)"
  then show "sanitizable h v" by (simp only: prepareForLog_returns_iff)
next
  assume san: "sanitizable h v"
  from prepareForLog_total[OF san] obtain w where w: "prepareForLog h v = Some (Value w)" by blast
  show "\<exists>w. prepareForLog h v = Some (Value w) \<and>
    (case v of
       GErr t \<Rightarrow> (\<exists>s. t = Some s \<and> w = GString s)
     | GMapSI t \<Rightarrow> (\<exists>newMap. w = GMapSI (Some newMap) \<and> fmdom' newMap = fmdom' (entries t) \<and>
         (\<forall>k x. fmlookup (entries t) k = Some x \<longrightarrow>
            (\<exists>y. fmlookup newMap k = Some y \<and> prepareForLog h x = Some (Value y))))
     | GMap t \<Rightarrow> (\<exists>newMap. w = GMapSI (Some newMap) \<and> fmdom' newMap = fst ` set (pairs t) \<and>
         (distinct (map fst (pairs t)) \<longrightarrow>
            (\<forall>k x. (k, x) \<in> set (pairs t) \<longrightarrow>
               (\<exists>y. fmlookup newMap k = Some y \<and> prepareForLog h x = Some (Value y)))))
     | GPtr None \<Rightarrow> w = GNil
     | GPtr (Some a) \<Rightarrow> prepareForLog h (h a) = Some (Value w)
     | GStruct fs \<Rightarrow> (\<exists>newMap. w = GMapSI (Some newMap) \<and>
         fmdom' newMap = {n. \<exists>x. (n, True, x) \<in> set fs} \<and>
         (distinct (map fst (filter (\<lambda>f. fst (snd f)) fs)) \<longrightarrow>
            (\<forall>n x. (n, True, x) \<in> set fs \<longrightarrow>
               (\<exists>y. fmlookup newMap n = Some y \<and> prepareForLog h x = Some (Value y)))))
     | GSlice None \<Rightarrow> w = GNil
     | GSlice (Some xs) \<Rightarrow> (\<exists>newArray. w = GSlice (Some newArray) \<and>
         list_all2 (\<lambda>x y. prepareForLog h x = Some (Value y)) xs newArray)
     | GArray xs \<Rightarrow> (\<exists>newArray. w = GSlice (Some newArray) \<and>
         list_all2 (\<lambda>x y. prepareForLog h x = Some (Value y)) xs newArray)
     | _ \<Rightarrow> w = v)"
  proof (cases v)
    case GNil
    then show ?thesis by (simp add: prepareForLog_unfold)
  next
    case (GErr t)
    with w show ?thesis by (cases t) (simp_all add: prepareForLog_unfold)
  next
    case (GBool b)
    then show ?thesis by (simp add: prepareForLog_unfold)
  next
    case (GInt i)
    then show ?thesis by (simp add: prepareForLog_unfold)
  next
    case (GString s)
    then show ?thesis by (simp add: prepareForLog_unfold)
  next
    case (GOther n)
    then show ?thesis by (simp add: prepareForLog_unfold)
  next
    case (GMapSI t)
    from w prepareForLog_mapsi[of h t w] show ?thesis
      unfolding GMapSI gval.case by blast
  next
    case (GMap t)
    from w prepareForLog_map[of h t w] show ?thesis
      unfolding GMap gval.case by blast
  next
    case (GStruct fs)
    from w prepareForLog_struct[of h fs w] show ?thesis
      unfolding GStruct gval.case by blast
  next
    case (GPtr p)
    show ?thesis
    proof (cases p)
      case None
      with GPtr w show ?thesis by (simp add: prepareForLog_unfold)
    next
      case (Some a)
      with GPtr w show ?thesis by (simp add: prepareForLog_unfold)
    qed
  next
    case (GSlice s)
    show ?thesis
    proof (cases s)
      case None
      with GSlice show ?thesis by (simp add: prepareForLog_unfold)
    next
      case (Some xs)
      from w prepareForLog_list[of h xs w] show ?thesis
        unfolding GSlice Some gval.case option.case prepareForLog_unfold by blast
    qed
  next
    case (GArray xs)
    from w prepareForLog_list[of h xs w] show ?thesis
      unfolding GArray gval.case prepareForLog_unfold by blast
  qed
qed

theorem prepareForLog_rules_witness:
  "sanitizable sample_heap sample_struct \<and>
   (\<exists>newMap. prepareForLog sample_heap sample_struct = Some (Value (GMapSI (Some newMap))) \<and>
      fmdom' newMap = {n. \<exists>x. (n, True, x) \<in> set
     [(''Name'', True, GString ''x''), (''secret'', False, GInt 1),
      (''Items'', True, GSlice (Some [])), (''Missing'', True, GSlice None),
      (''Ref'', True, GPtr (Some 0)), (''Cause'', True, GErr (Some ''boom''))]} \<and>
      fmlookup newMap ''Missing'' = Some GNil \<and>
      fmlookup newMap ''Items'' = Some (GSlice (Some [])) \<and>
      fmlookup newMap ''Cause'' = Some (GString ''boom''))"
proof -
  have san: "sanitizable sample_heap sample_struct" by (rule sanitizable_sample_struct)
  with prepareForLog_rules[of sample_heap sample_struct] obtain newMap where
    w: "prepareForLog sample_heap sample_struct = Some (Value (GMapSI (Some newMap)))"
    and d: "fmdom' newMap = {n. \<exists>x. (n, True, x) \<in> set
     [(''Name'', True, GString ''x''), (''secret'', False, GInt 1),
      (''Items'', True, GSlice (Some [])), (''Missing'', True, GSlice None),
      (''Ref'', True, GPtr (Some 0)), (''Cause'', True, GErr (Some ''boom''))]}"
    unfolding sample_struct_def gval.case by blast
  from w have "newMap = fmupd ''Cause'' (GString ''boom'') (fmupd ''Ref'' (GInt 7) (fmupd ''Missing'' GNil
       (fmupd ''Items'' (GSlice (Some [])) (fmupd ''Name'' (GString ''x'') fmempty))))"
    by (simp add: prepareForLog_sample_struct)
  then have "fmlookup newMap ''Missing'' = Some GNil" "fmlookup newMap ''Items'' = Some (GSlice (Some []))"
    "fmlookup newMap ''Cause'' = Some (GString ''boom'')"
    by simp_all
  with san w d show ?thesis by blast
qed

text \<open>
  The claim as stated, total over every input and with every nil pointer turned into nil,
  fails on a cyclic value, where the recursion never ends (on the pointer into \<open>ring\<close>), and
  on a nil pointer of an error type, where the call panics.
\<close>

theorem prepareForLog_total_counterexample:
  "prepareForLog ring (GPtr (Some 0)) = None \<and>
   prepareForLog sample_heap (GErr None) = Some NilDereference"
  using prepareForLog_ring prepareForLog_unfold(2)[of sample_heap] by (rule conjI)

text \<open>
  Claim C3. Sanitizing is idempotent: \<open>prepareForLog\<close> applied to its own result returns that
  result. The first part is the equation of the two calls in sequence with the one call,
  for every value, also one on which the call panics or does not return; the second says
  that every value returned is returned unchanged by a second call; the third that on a
  sanitizable value both calls return.
\<close>

theorem prepareForLog_idempotent:
  "andThen (prepareForLog h v) (prepareForLog h) = prepareForLog h v \<and>
   (\<forall>w. prepareForLog h v = Some (Value w) \<longrightarrow> prepareForLog h w = Some (Value w)) \<and>
   (sanitizable h v \<longrightarrow>
      (\<exists>w. prepareForLog h v = Some (Value w) \<and> prepareForLog h w = Some (Value w)))"
proof (intro conjI allI impI)
  show "andThen (prepareForLog h v) (prepareForLog h) = prepareForLog h v"
  proof (cases "prepareForLog h v")
    case None
    then show ?thesis by simp
  next
    case (Some r)
    then show ?thesis by (cases r) (simp_all add: prepareForLog_fixed)
  qed
next
  fix w assume "prepareForLog h v = Some (Value w)"
  then show "prepareForLog h w = Some (Value w)" by (rule prepareForLog_fixed)
next
  assume "sanitizable h v"
  then show "\<exists>w. prepareForLog h v = Some (Value w) \<and> prepareForLog h w = Some (Value w)"
    using prepareForLog_total[of h v] prepareForLog_fixed[of h v] by blast
qed

theorem prepareForLog_idempotent_witness:
  "sanitizable sample_heap sample_struct \<and>
   (\<exists>w. prepareForLog sample_heap sample_struct = Some (Value w) \<and>
      prepareForLog sample_heap w = Some (Value w))"
  using prepareForLog_idempotent[of sample_heap sample_struct] sanitizable_sample_struct by blast

section \<open>Properties of the levels\<close>

lemma levelsAt_registered:
  "levelsAt Trace = 0" "levelsAt Debug = 1" "levelsAt Info = 2" "levelsAt Warn = 3"
  "levelsAt Error = 4" "levelsAt Fatal = 5" "levelsAt Panic = 6"
  by (simp_all add: levelsAt_def levels_def Trace_def Debug_def Info_def Warn_def Error_def
      Fatal_def Panic_def)

lemma levelsAt_range: "0 \<le> levelsAt lvl \<and> levelsAt lvl \<le> 6"
  by (simp add: levelsAt_def levels_def)

lemma levelsAt_unregistered: "lvl \<notin> fst ` set levels \<Longrightarrow> levelsAt lvl = 0"
  by (simp add: levelsAt_def map_of_eq_None_iff[THEN iffD2])

text \<open>
  Claim C5, as the code has it. \<open>levelPriority\<close> rejects nothing: it gives the seven
  registered names their priorities 0 to 6 and every other string the priority 0, that of
  \<open>trace\<close>, so that a level obtained from an unregistered name lets every call pass the
  filter.
\<close>

theorem levelPriority_total:
  "levelPriority Trace = 0 \<and> levelPriority Debug = 1 \<and> levelPriority Info = 2 \<and>
   levelPriority Warn = 3 \<and> levelPriority Error = 4 \<and> levelPriority Fatal = 5 \<and>
   levelPriority Panic = 6 \<and>
   (lvl \<notin> fst ` set levels \<longrightarrow>
      levelPriority lvl = 0 \<and> levelPriority lvl = levelPriority Trace \<and>
      (\<forall>call. \<not> levelsAt call < levelPriority lvl))"
proof -
  have "\<not> levelsAt call < 0" for call
    using levelsAt_range[of call] by simp
  then show ?thesis
    by (simp add: levelPriority_def levelsAt_registered levelsAt_unregistered)
qed

theorem levelPriority_total_witness:
  "''verbose'' \<notin> fst ` set levels \<and> levelPriority ''verbose'' = levelPriority Trace \<and>
   \<not> levelsAt Debug < levelPriority ''verbose''"
proof -
  have h: "''verbose'' \<notin> fst ` set levels"
    by (simp add: levels_def Trace_def Debug_def Info_def Warn_def Error_def Fatal_def Panic_def)
  with levelPriority_total[of "''verbose''"] show ?thesis by blast
qed

text \<open>
  The claim as stated, that \<open>levelPriority\<close> never yields 0 for a name that is not registered,
  fails at the name \<open>verbose\<close>.
\<close>

theorem levelPriority_unregistered_counterexample:
  "''verbose'' \<notin> fst ` set levels \<and> levelPriority ''verbose'' = 0"
  by (simp add: levelPriority_def levelsAt_def levels_def Trace_def Debug_def Info_def Warn_def
      Error_def Fatal_def Panic_def)

section \<open>Properties of getStackTrace\<close>

lemma Itoa_example: "Itoa 41 = ''41''" "Itoa (- 7) = ''-7''" "Itoa 0 = ''0''"
  by (simp_all add: Itoa_def digits.simps)

lemma captureLoop_result:
  assumes "depth \<le> min (length cs) maxDepth"
  shows "captureLoop cs depth (map traceLine (take depth cs) @ replicate (maxDepth - depth) []) =
     (min (length cs) maxDepth,
      map traceLine (take (min (length cs) maxDepth) cs) @
        replicate (maxDepth - min (length cs) maxDepth) [])"
  using assms
proof (induction "min (length cs) maxDepth - depth" arbitrary: depth)
  case 0
  then have eq: "depth = min (length cs) maxDepth" by simp
  show ?case
  proof (cases "depth < maxDepth")
    case True
    with eq have "\<not> depth < length cs" by auto
    with True eq show ?thesis
      by (subst captureLoop.simps) (simp add: Caller_def)
  next
    case False
    with eq show ?thesis by (subst captureLoop.simps) simp
  qed
next
  case (Suc n)
  then have lt: "depth < maxDepth" "depth < length cs" by auto
  have upd: "(map traceLine (take depth cs) @ replicate (maxDepth - depth) [])[depth := traceLine (cs ! depth)] =
      map traceLine (take (depth + 1) cs) @ replicate (maxDepth - (depth + 1)) []"
  proof -
    from lt have "replicate (maxDepth - depth) ([] :: string) = [] # replicate (maxDepth - (depth + 1)) []"
      by (cases "maxDepth - depth") auto
    moreover from lt have "length (map traceLine (take depth cs)) = depth" by simp
    ultimately show ?thesis
      using lt by (simp add: list_update_append take_Suc_conv_app_nth)
  qed
  have "captureLoop cs (depth + 1) (map traceLine (take (depth + 1) cs) @ replicate (maxDepth - (depth + 1)) []) =
     (min (length cs) maxDepth,
      map traceLine (take (min (length cs) maxDepth) cs) @
        replicate (maxDepth - min (length cs) maxDepth) [])"
    using Suc.hyps(2) lt by (intro Suc.hyps(1)) auto
  with lt upd show ?case
    by (subst captureLoop.simps) (simp add: Caller_def)
qed

lemma captureLoop_start:
  "captureLoop cs 0 (replicate maxDepth []) =
     (min (length cs) maxDepth,
      map traceLine (take maxDepth cs) @ replicate (maxDepth - length cs) [])"
proof -
  have "take (min (length cs) maxDepth) cs = take maxDepth cs" by (simp add: min_def)
  moreover have "maxDepth - min (length cs) maxDepth = maxDepth - length cs" by (simp add: min_def)
  ultimately show ?thesis using captureLoop_result[of 0 cs] by simp
qed

lemma assembleLoop_in_range:
  "i < length ts \<Longrightarrow>
     assembleLoop ts (int k) (int i) s = Return (s @ concat (rev (take (i - k) (drop (Suc k) ts))))"
proof (induction i arbitrary: s)
  case 0
  show ?case by (subst assembleLoop.simps) simp
next
  case (Suc i)
  show ?case
  proof (cases "k < Suc i")
    case False
    then show ?thesis by (subst assembleLoop.simps) simp
  next
    case True
    then have "Suc i - k = Suc (i - k)" by simp
    moreover from True Suc.prems have "i - k < length (drop (Suc k) ts)" by simp
    moreover from True have "drop (Suc k) ts ! (i - k) = ts ! Suc i" using Suc.prems by simp
    ultimately have t: "take (Suc i - k) (drop (Suc k) ts) = take (i - k) (drop (Suc k) ts) @ [ts ! Suc i]"
      by (simp add: take_Suc_conv_app_nth)
    have n: "nat (1 + int i) = Suc i" by simp
    from Suc.prems have "i < length ts" by simp
    from Suc.IH[OF this, of "s @ ts ! Suc i"] True Suc.prems show ?thesis
      by (subst assembleLoop.simps) (simp add: t n)
  qed
qed

lemma assembleLoop_no_pass:
  "i \<le> depthSkip \<Longrightarrow> assembleLoop ts depthSkip i s = Return s"
  by (subst assembleLoop.simps) simp

lemma assembleLoop_out_of_range:
  "depthSkip < int (length ts) \<Longrightarrow>
     assembleLoop ts depthSkip (int (length ts)) s = Panicked (IndexOutOfRange (int (length ts)) (length ts))"
  by (subst assembleLoop.simps) simp

lemma int64_small: "- (2 ^ 63) \<le> x \<Longrightarrow> x < 2 ^ 63 \<Longrightarrow> int64 x = x"
  by (simp add: int64_def)

lemma concat_rev_blank:
  "concat (rev (take n (xs @ replicate m []))) = concat (rev (take n xs))"
  by (simp add: take_replicate) 

lemma getStackTrace_general:
  assumes "0 \<le> depthSkip" and "depthSkip < 2 ^ 63 - 1"
  shows "getStackTrace depthSkip cs =
     (if maxDepth \<le> length cs \<and> depthSkip + 1 < int maxDepth
      then Panicked (IndexOutOfRange (int maxDepth) maxDepth)
      else Return (newline @
             concat (rev (drop (nat depthSkip + 2) (map traceLine (take maxDepth cs))))))"
proof -
  define k where "k = nat (depthSkip + 1)"
  define ts where "ts = map traceLine (take maxDepth cs) @ replicate (maxDepth - length cs) []"
  from assms have k: "int k = depthSkip + 1" "Suc k = nat depthSkip + 2" by (simp_all add: k_def)
  from assms have wrap: "int64 (depthSkip + 1) = int k"
    by (simp add: int64_small k)
  have len: "length ts = maxDepth" by (simp add: ts_def min_def)
  have unfolded: "getStackTrace depthSkip cs = assembleLoop ts (int k) (int (min (length cs) maxDepth)) newline"
    by (simp add: getStackTrace_def captureLoop_start wrap ts_def)
  show ?thesis
  proof (cases "maxDepth \<le> length cs")
    case True
    then have depth: "min (length cs) maxDepth = length ts" by (simp add: len)
    show ?thesis
    proof (cases "depthSkip + 1 < int maxDepth")
      case True
      with k len have "int k < int (length ts)" by simp
      from assembleLoop_out_of_range[OF this] \<open>maxDepth \<le> length cs\<close> True show ?thesis
        by (simp add: unfolded depth len)
    next
      case False
      with k len have "int (length ts) \<le> int k" by simp
      from assembleLoop_no_pass[OF this] have "getStackTrace depthSkip cs = Return newline"
        by (simp add: unfolded depth)
      moreover from False k have "maxDepth \<le> nat depthSkip + 2" by linarith
      ultimately show ?thesis using False by simp
    qed
  next
    case False
    then have depth: "min (length cs) maxDepth = length cs" and lt: "length cs < length ts"
      by (simp_all add: len)
    from False have tk: "take maxDepth cs = cs" by simp
    have "concat (rev (take (length cs - k) (drop (Suc k) ts))) =
        concat (rev (drop (Suc k) (map traceLine cs)))"
    proof -
      have "drop (Suc k) ts = drop (Suc k) (map traceLine cs) @ replicate (maxDepth - length cs - (Suc k - length cs)) []"
        by (simp add: ts_def tk)
      then have "concat (rev (take (length cs - k) (drop (Suc k) ts))) =
          concat (rev (take (length cs - k) (drop (Suc k) (map traceLine cs))))"
        by (simp only: concat_rev_blank)
      also have "take (length cs - k) (drop (Suc k) (map traceLine cs)) = drop (Suc k) (map traceLine cs)"
        by simp
      finally show ?thesis .
    qed
    with assembleLoop_in_range[OF lt, of k newline] False show ?thesis
      by (simp add: unfolded depth k tk)
  qed
qed

text \<open>
  Claim C7. \<open>getStackTrace\<close> reads at most \<open>maxDepth\<close> (50) frames and renders them outermost
  first, each as a tab, the function name, a colon, the line and a newline, after a leading
  newline, leaving out frames 0 to \<open>depthSkip + 1\<close> (with \<open>depthSkip = 1\<close>:
  \<open>getStackTrace\<close>, \<open>logError\<close> and the logging method, so that the last line is the call
  site). On a stack of 50 frames or more the second loop starts at \<open>traces[50]\<close>, outside
  the slice, and the call panics where the claim says it is total.
\<close>

theorem getStackTrace_result:
  assumes "0 \<le> depthSkip" and "depthSkip < 2 ^ 63 - 1"
  shows "getStackTrace depthSkip cs =
     (if maxDepth \<le> length cs \<and> depthSkip + 1 < int maxDepth
      then Panicked (IndexOutOfRange (int maxDepth) maxDepth)
      else Return (newline @
             concat (rev (drop (nat depthSkip + 2) (map traceLine (take maxDepth cs))))))"
  using assms by (rule getStackTrace_general)

theorem getStackTrace_result_witness:
  "(0::int) \<le> 1 \<and> (1::int) < 2 ^ 63 - 1 \<and>
   getStackTrace 1 deep_stack = Panicked (IndexOutOfRange 50 50)"
  using getStackTrace_result[of 1 deep_stack]
  by (simp add: deep_stack_def maxDepth_def)

text \<open>
  On a stack of five frames, \<open>Error\<close> called from \<open>main.save\<close>: the trace starts at
  \<open>main.main\<close> and ends at the call site.
\<close>

lemma getStackTrace_short:
  "getStackTrace 1 short_stack =
     Return (newline @ tab @ ''main.main:7'' @ newline @ tab @ ''main.save:41'' @ newline)"
  using getStackTrace_general[of 1 short_stack]
  by (simp add: short_stack_def maxDepth_def traceLine_def Itoa_def digits.simps)

section \<open>Properties of the logging path\<close>

lemma sinkWrites_append: "sinkWrites (xs @ ys) = sinkWrites xs @ sinkWrites ys"
  by (induction xs rule: sinkWrites.induct) simp_all



lemma logger_write_events:
  "logger_write e l buffer w = w\<lparr>trace := trace w @
     SinkWrite (output' l) buffer #
     (case Write e (output' l) buffer of None \<Rightarrow> [] | Some er \<Rightarrow> [StderrWrite (failedToWrite er)])\<rparr>"
  by (simp add: logger_write_def emit_def Let_def split: option.split)

lemma format_and_write_registered:
  assumes "formatters e (format l) = Some fmt"
  shows "format_and_write e l lvl msg logErr d w =
     (w\<lparr>trace := trace w @ record_events e l fmt lvl msg logErr d\<rparr>, Return ())"
  using assms
  by (simp add: format_and_write_def record_events_def timestamp_of_def logger_write_events
      emit_def Let_def split: prod.split option.split)


lemma fireHooks_registered:
  assumes "formatters e (format l) = Some fmt"
  shows "fireHooks e l hs lvl msg logErr d w =
     (w\<lparr>trace := trace w @ hook_events e l fmt hs lvl msg logErr d\<rparr>, Return ())"
proof (induction hs arbitrary: w)
  case Nil
  show ?case by simp
next
  case (Cons h hs)
  show ?case
  proof (cases "Fire h lvl msg logErr d")
    case None
    then show ?thesis
      by (simp add: Cons.IH emit_def)
  next
    case (Some er)
    then show ?thesis
      by (simp add: Cons.IH emit_def err_def format_and_write_registered[OF assms])
  qed
qed

lemma sinkWrites_record_events:
  "sinkWrites (record_events e l fmt lvl msg logErr d) = [fst (fmt (timestamp_of e l) lvl msg logErr d)]"
  by (simp add: record_events_def sinkWrites_append split: prod.split option.split)




lemma sinkWrites_hook_events:
  "sinkWrites (hook_events e l fmt hs lvl msg logErr d) =
     map (\<lambda>er. fst (fmt (timestamp_of e l) Error (errorString er) (Some er) (data l)))
       (failures hs lvl msg logErr d)"
  by (induction hs)
     (simp_all add: failures_def List.map_filter_simps sinkWrites_append sinkWrites_record_events
        split: option.split)


lemma span_world_events: "span_world e l er w = w\<lparr>trace := trace w @ span_events e l er\<rparr>"
  by (simp add: span_world_def span_events_def emit_def split: option.split)

lemma sinkWrites_span_events: "sinkWrites (span_events e l er) = []"
  by (simp add: span_events_def split: option.split)

lemma log_suppressed:
  "levelsAt lvl < level l \<Longrightarrow> log e l lvl msg logErr flds w = (w, Return ())"
  by (simp add: log_def)

lemma log_accepted:
  assumes "\<not> levelsAt lvl < level l"
    and "formatters e (format l) = Some fmt"
    and "mergeMapStringInterface (memory w) (fields' (data l)) flds = Some (Value merged)"
  shows "log e l lvl msg logErr flds w =
     (w\<lparr>trace := trace w @
         hook_events e l fmt (hooks l) lvl msg logErr ((data l)\<lparr>fields' := Some merged\<rparr>) @
         record_events e l fmt lvl msg logErr ((data l)\<lparr>fields' := Some merged\<rparr>)\<rparr>,
      Return ())"
  using assms
  by (simp add: log_def Let_def fireHooks_registered[OF assms(2)]
      format_and_write_registered[OF assms(2)])

lemma fields_sanitizable_iff:
  "fields_sanitizable h l \<longleftrightarrow>
     (\<forall>v \<in> fmran' (entries (fields' (data l))). \<exists>w. prepareForLog h v = Some (Value w))"
  by (auto simp: fields_sanitizable_def fmpred_iff fmlookup_ran'_iff returns_value_iff)

lemma merge_returns:
  assumes "fields_sanitizable h l"
    and "\<And>v. v \<in> fmran' (entries flds) \<Longrightarrow> \<exists>w. prepareForLog h v = Some (Value w)"
  shows "\<exists>merged. mergeMapStringInterface h (fields' (data l)) flds = Some (Value merged)"
  using assms by (auto simp: merge_returns_iff fields_sanitizable_iff)


lemma merge_returns_stacktrace:
  "fields_sanitizable h l \<Longrightarrow>
   \<exists>merged. mergeMapStringInterface h (fields' (data l))
     (Some (fmupd ''stacktrace'' (GString st) fmempty)) = Some (Value merged)"
  by (rule merge_returns)
     (auto simp: entries_def fmlookup_ran'_iff prepareForLog_unfold split: if_splits)

lemma getStackTrace_1:
  "getStackTrace 1 cs =
     (if maxDepth \<le> length cs then Panicked (IndexOutOfRange (int maxDepth) maxDepth)
      else Return (newline @ concat (rev (drop 3 (map traceLine (take maxDepth cs))))))"
proof -
  have "getStackTrace 1 cs =
     (if maxDepth \<le> length cs \<and> (1::int) + 1 < int maxDepth
      then Panicked (IndexOutOfRange (int maxDepth) maxDepth)
      else Return (newline @
             concat (rev (drop (nat 1 + 2) (map traceLine (take maxDepth cs))))))"
    by (rule getStackTrace_general) simp_all
  moreover have "(1::int) + 1 < int maxDepth" by (simp add: maxDepth_def)
  ultimately show ?thesis by (auto simp: numeral_3_eq_3)
qed

lemma logError_deep:
  "maxDepth \<le> length (callers w) \<Longrightarrow>
     logError e l lvl er msg w =
       (span_world e l er w, Panicked (IndexOutOfRange (int maxDepth) maxDepth))"
  by (simp add: logError_def span_world_def[symmetric] span_world_events getStackTrace_1)

lemma logError_shallow:
  "length (callers w) < maxDepth \<Longrightarrow>
     logError e l lvl er msg w =
       log e l lvl msg er
         (Some (fmupd ''stacktrace''
            (GString (newline @ concat (rev (drop 3 (map traceLine (callers w)))))) fmempty))
         (span_world e l er w)"
  by (simp add: logError_def span_world_def[symmetric] span_world_events getStackTrace_1)

lemma sample_wf: "formatters sample_env (format sample_logger) = Some sample_formatter"
  by (simp add: sample_env_def sample_logger_def)


lemma sample_sanitizable: "fields_sanitizable h sample_logger"
  by (simp add: fields_sanitizable_def sample_logger_def entries_def)





lemma world_trace_id: "w\<lparr>trace := trace w @ []\<rparr> = w"
  by simp














lemma logError_returns:
  assumes "formatters e (format l) = Some fmt" and "fields_sanitizable (memory w) l"
    and "length (callers w) < maxDepth"
  shows "\<exists>evs. logError e l lvl er msg w = (w\<lparr>trace := trace w @ evs\<rparr>, Return ()) \<and>
     (sinkWrites evs \<noteq> [] \<longleftrightarrow> level l \<le> levelsAt lvl) \<and>
     (level l \<le> levelsAt lvl \<longrightarrow>
        (\<exists>merged. mergeMapStringInterface (memory w) (fields' (data l))
             (Some (fmupd ''stacktrace''
                (GString (newline @ concat (rev (drop 3 (map traceLine (callers w)))))) fmempty)) =
             Some (Value merged) \<and>
           length (sinkWrites evs) =
             1 + length (failures (hooks l) lvl msg er ((data l)\<lparr>fields' := Some merged\<rparr>))))"
proof -
  let ?w1 = "w\<lparr>trace := trace w @ span_events e l er\<rparr>"
  let ?flds = "Some (fmupd ''stacktrace''
            (GString (newline @ concat (rev (drop 3 (map traceLine (callers w)))))) fmempty)"
  have le: "logError e l lvl er msg w = log e l lvl msg er ?flds ?w1"
    using logError_shallow[OF assms(3)] by (simp add: span_world_events)
  show ?thesis
  proof (cases "levelsAt lvl < level l")
    case True
    then have "logError e l lvl er msg w = (w\<lparr>trace := trace w @ span_events e l er\<rparr>, Return ())"
      by (simp add: le log_suppressed)
    with True show ?thesis
      by (intro exI[of _ "span_events e l er"]) (simp add: sinkWrites_span_events)
  next
    case False
    from merge_returns_stacktrace[OF assms(2)] obtain merged where
      m: "mergeMapStringInterface (memory ?w1) (fields' (data l)) ?flds = Some (Value merged)"
      by auto
    let ?d = "(data l)\<lparr>fields' := Some merged\<rparr>"
    let ?evs = "span_events e l er @ hook_events e l fmt (hooks l) lvl msg er ?d @
        record_events e l fmt lvl msg er ?d"
    from log_accepted[OF False assms(1) m]
    have "logError e l lvl er msg w = (w\<lparr>trace := trace w @ ?evs\<rparr>, Return ())"
      by (simp add: le)
    moreover have "length (sinkWrites ?evs) = 1 + length (failures (hooks l) lvl msg er ?d)"
      by (simp add: sinkWrites_append sinkWrites_span_events sinkWrites_hook_events
          sinkWrites_record_events)
    moreover from this have "sinkWrites ?evs \<noteq> []" by (metis add_is_0 length_0_conv zero_neq_one)
    moreover from m have "mergeMapStringInterface (memory w) (fields' (data l)) ?flds =
        Some (Value merged)" by simp
    ultimately show ?thesis using False by (intro exI[of _ ?evs]) auto
  qed
qed


lemma fatal_panic_deep:
  assumes "maxDepth \<le> length (callers w)"
  shows "snd (logger_Fatal e l er msg w) = Panicked (IndexOutOfRange 50 50)"
    and "snd (logger_Fatalf e l er msg args w) = Panicked (IndexOutOfRange 50 50)"
    and "snd (logger_Panic e l er msg w) = Panicked (IndexOutOfRange 50 50)"
    and "snd (logger_Panicf e l er msg args w) = Panicked (IndexOutOfRange 50 50)"
  by (simp_all add: logger_Fatal_def logger_Fatalf_def logger_Panic_def logger_Panicf_def
      logError_deep[OF assms] maxDepth_def)

lemma fatal_panic_returning:
  assumes "formatters e (format l) = Some fmt" and "fields_sanitizable (memory w) l"
    and "length (callers w) < maxDepth"
  shows "logger_Fatal e l er msg w = (fst (logError e l Fatal er msg w), Exited 1)"
    and "logger_Fatalf e l er msg args w =
           (fst (logError e l Fatal er (Sprintf e msg args) w), Exited 1)"
    and "logger_Panic e l er msg w =
           (fst (logError e l Panic er msg w), Panicked (PanicValue er))"
    and "logger_Panicf e l er msg args w =
           (fst (logError e l Panic er (Sprintf e msg args) w), Panicked (PanicValue er))"
proof -
  have ret: "\<exists>w'. logError e l lvl er m w = (w', Return ())" for lvl m
    using logError_returns[OF assms, of lvl er m] by blast
  from ret[of Fatal msg] show "logger_Fatal e l er msg w = (fst (logError e l Fatal er msg w), Exited 1)"
    by (auto simp: logger_Fatal_def)
  from ret[of Fatal "Sprintf e msg args"]
  show "logger_Fatalf e l er msg args w =
           (fst (logError e l Fatal er (Sprintf e msg args) w), Exited 1)"
    by (auto simp: logger_Fatalf_def)
  from ret[of Panic msg]
  show "logger_Panic e l er msg w =
           (fst (logError e l Panic er msg w), Panicked (PanicValue er))"
    by (auto simp: logger_Panic_def)
  from ret[of Panic "Sprintf e msg args"]
  show "logger_Panicf e l er msg args w =
           (fst (logError e l Panic er (Sprintf e msg args) w), Panicked (PanicValue er))"
    by (auto simp: logger_Panicf_def)
qed

text \<open>
  Claim C9. \<open>Fatal\<close> and \<open>Fatalf\<close> are to log and then exit with status 1, \<open>Panic\<close> and
  \<open>Panicf\<close> to log and then panic with the error they were given. On a stack of fewer than
  50 frames they do, whatever the hooks return: the state they end in is the one \<open>logError\<close>
  leaves. On a stack of 50 frames or more \<open>logError\<close> does not return: \<open>getStackTrace\<close>
  panics with an index out of range, so that \<open>os.Exit(1)\<close> and \<open>panic(err)\<close> are never
  reached.
\<close>

theorem fatal_panic_outcome:
  "(maxDepth \<le> length (callers w) \<longrightarrow>
      snd (logger_Fatal e l er msg w) = Panicked (IndexOutOfRange 50 50) \<and>
      snd (logger_Fatalf e l er msg args w) = Panicked (IndexOutOfRange 50 50) \<and>
      snd (logger_Panic e l er msg w) = Panicked (IndexOutOfRange 50 50) \<and>
      snd (logger_Panicf e l er msg args w) = Panicked (IndexOutOfRange 50 50)) \<and>
   (length (callers w) < maxDepth \<and> formatters e (format l) = Some fmt \<and>
    fields_sanitizable (memory w) l \<longrightarrow>
      logger_Fatal e l er msg w = (fst (logError e l Fatal er msg w), Exited 1) \<and>
      logger_Fatalf e l er msg args w =
        (fst (logError e l Fatal er (Sprintf e msg args) w), Exited 1) \<and>
      logger_Panic e l er msg w =
        (fst (logError e l Panic er msg w), Panicked (PanicValue er)) \<and>
      logger_Panicf e l er msg args w =
        (fst (logError e l Panic er (Sprintf e msg args) w), Panicked (PanicValue er)))"
proof (intro conjI impI)
  assume "maxDepth \<le> length (callers w)"
  then show "snd (logger_Fatal e l er msg w) = Panicked (IndexOutOfRange 50 50)"
    "snd (logger_Fatalf e l er msg args w) = Panicked (IndexOutOfRange 50 50)"
    "snd (logger_Panic e l er msg w) = Panicked (IndexOutOfRange 50 50)"
    "snd (logger_Panicf e l er msg args w) = Panicked (IndexOutOfRange 50 50)"
    by (rule fatal_panic_deep)+
next
  assume a: "length (callers w) < maxDepth \<and> formatters e (format l) = Some fmt \<and>
    fields_sanitizable (memory w) l"
  then have h: "formatters e (format l) = Some fmt" "fields_sanitizable (memory w) l"
    "length (callers w) < maxDepth" by simp_all
  show "logger_Fatal e l er msg w = (fst (logError e l Fatal er msg w), Exited 1)"
    by (rule fatal_panic_returning[OF h])
  show "logger_Fatalf e l er msg args w =
        (fst (logError e l Fatal er (Sprintf e msg args) w), Exited 1)"
    by (rule fatal_panic_returning[OF h])
  show "logger_Panic e l er msg w =
        (fst (logError e l Panic er msg w), Panicked (PanicValue er))"
    by (rule fatal_panic_returning[OF h])
  show "logger_Panicf e l er msg args w =
        (fst (logError e l Panic er (Sprintf e msg args) w), Panicked (PanicValue er))"
    by (rule fatal_panic_returning[OF h])
qed

theorem fatal_panic_outcome_witness:
  "maxDepth \<le> length (callers deep_world) \<and>
   snd (logger_Fatal sample_env sample_logger (Some (GoError ''boom'')) ''failed'' deep_world) =
     Panicked (IndexOutOfRange 50 50) \<and>
   snd (logger_Panic sample_env sample_logger (Some (GoError ''boom'')) ''failed'' deep_world) =
     Panicked (IndexOutOfRange 50 50) \<and>
   length (callers sample_world) < maxDepth \<and>
   formatters sample_env (format sample_logger) = Some sample_formatter \<and>
   fields_sanitizable (memory sample_world) sample_logger \<and>
   snd (logger_Fatal sample_env sample_logger (Some (GoError ''boom'')) ''failed'' sample_world) =
     Exited 1 \<and>
   snd (logger_Panic sample_env sample_logger (Some (GoError ''boom'')) ''failed'' sample_world) =
     Panicked (PanicValue (Some (GoError ''boom'')))"
proof -
  have d: "maxDepth \<le> length (callers deep_world)"
    by (simp add: deep_world_def deep_stack_def maxDepth_def)
  have s: "length (callers sample_world) < maxDepth"
    by (simp add: sample_world_def short_stack_def maxDepth_def)
  from fatal_panic_outcome[where w = deep_world and e = sample_env and l = sample_logger
         and er = "Some (GoError ''boom'')" and msg = "''failed''" and fmt = sample_formatter]
       fatal_panic_outcome[where w = sample_world and e = sample_env and l = sample_logger
         and er = "Some (GoError ''boom'')" and msg = "''failed''" and fmt = sample_formatter]
       d s sample_wf sample_sanitizable
  show ?thesis by simp
qed

section \<open>The level filter\<close>














section \<open>Chaining\<close>

lemma copy_valid:
  assumes "l < length (loggers w)"
  shows "copy l w = (w\<lparr>loggers := loggers w @ [loggers w ! l]\<rparr>, Return (length (loggers w)))"
  using assms by (simp add: copy_def Let_def)

lemma set_data_new:
  "set_data (length xs) f (w\<lparr>loggers := xs @ [x]\<rparr>) = w\<lparr>loggers := xs @ [x\<lparr>data := f (data x)\<rparr>]\<rparr>"
  by (simp add: set_data_def)

lemma resolveLoop_frame:
  assumes "loggers w = xs @ [x]"
  shows "\<exists>cf r. resolveLoop (length xs) rs c w =
      (w\<lparr>loggers := xs @ [x\<lparr>data := (data x)\<lparr>contextFields := cf\<rparr>\<rparr>]\<rparr>, r) \<and>
      (r = Return () \<or> r = NoReturn \<or> r = Panicked NilPointer)"
  using assms
proof (induction rs arbitrary: w x)
  case Nil
  then have "resolveLoop (length xs) [] c w =
      (w\<lparr>loggers := xs @ [x\<lparr>data := (data x)\<lparr>contextFields := contextFields (data x)\<rparr>\<rparr>]\<rparr>, Return ())"
    by simp
  then show ?case by blast
next
  case (Cons r rs)
  show ?case
  proof (cases "mergeMapStringInterface (memory w) (contextFields (data x)) (r c)")
    case None
    with Cons.prems have "resolveLoop (length xs) (r # rs) c w =
      (w\<lparr>loggers := xs @ [x\<lparr>data := (data x)\<lparr>contextFields := contextFields (data x)\<rparr>\<rparr>]\<rparr>, NoReturn)"
      by simp
    then show ?thesis by blast
  next
    case (Some a)
    show ?thesis
    proof (cases a)
      case NilDereference
      with Some Cons.prems have "resolveLoop (length xs) (r # rs) c w =
        (w\<lparr>loggers := xs @ [x\<lparr>data := (data x)\<lparr>contextFields := contextFields (data x)\<rparr>\<rparr>]\<rparr>,
         Panicked NilPointer)"
        by simp
      then show ?thesis by blast
    next
      case (Value merged)
      let ?x' = "x\<lparr>data := (data x)\<lparr>contextFields := Some merged\<rparr>\<rparr>"
      let ?w' = "w\<lparr>loggers := xs @ [?x']\<rparr>"
      have sd: "set_data (length xs) (\<lambda>d. d\<lparr>contextFields := Some merged\<rparr>) w = ?w'"
        using Cons.prems by (simp add: set_data_def)
      have "loggers ?w' = xs @ [?x']" by simp
      from Cons.IH[OF this] obtain cf r' where
        "resolveLoop (length xs) rs c ?w' =
           (?w'\<lparr>loggers := xs @ [?x'\<lparr>data := (data ?x')\<lparr>contextFields := cf\<rparr>\<rparr>]\<rparr>, r')"
        and r': "r' = Return () \<or> r' = NoReturn \<or> r' = Panicked NilPointer"
        by blast
      with Some Value Cons.prems sd have "resolveLoop (length xs) (r # rs) c w =
          (w\<lparr>loggers := xs @ [x\<lparr>data := (data x)\<lparr>contextFields := cf\<rparr>\<rparr>]\<rparr>, r')"
        by simp
      with r' show ?thesis by blast
    qed
  qed
qed

lemma WithChannel_valid:
  assumes "l < length (loggers w)"
  shows "WithChannel l ch w =
     (w\<lparr>loggers := loggers w @ [(loggers w ! l)\<lparr>data := (data (loggers w ! l))\<lparr>channel := ch\<rparr>\<rparr>]\<rparr>,
      Return (length (loggers w)))"
  by (simp add: WithChannel_def copy_valid[OF assms] set_data_new)

lemma WithFields_valid:
  assumes "l < length (loggers w)"
  shows "WithFields l flds w =
     (case mergeMapStringInterface (memory w) (fields' (data (loggers w ! l))) flds of
        None \<Rightarrow> (w\<lparr>loggers := loggers w @ [loggers w ! l]\<rparr>, NoReturn)
      | Some NilDereference \<Rightarrow> (w\<lparr>loggers := loggers w @ [loggers w ! l]\<rparr>, Panicked NilPointer)
      | Some (Value merged) \<Rightarrow>
          (w\<lparr>loggers := loggers w @ [(loggers w ! l)\<lparr>data := (data (loggers w ! l))\<lparr>fields' := Some merged\<rparr>\<rparr>]\<rparr>,
           Return (length (loggers w))))"
  using assms
  by (simp add: WithFields_def copy_valid[OF assms] set_data_new nth_append
      split: option.split attempt.split)

lemma WithContext_valid:
  assumes "l < length (loggers w)"
  shows "\<exists>cf r. WithContext l (Some cx) w =
     (w\<lparr>loggers := loggers w @
         [(loggers w ! l)\<lparr>data := (data (loggers w ! l))\<lparr>ctx := Some cx, contextFields := cf\<rparr>\<rparr>]\<rparr>, r) \<and>
     (r = Return (length (loggers w)) \<or> r = NoReturn \<or> r = Panicked NilPointer)"
proof -
  let ?x = "(loggers w ! l)\<lparr>data := (data (loggers w ! l))\<lparr>ctx := Some cx\<rparr>\<rparr>"
  let ?w1 = "w\<lparr>loggers := loggers w @ [?x]\<rparr>"
  have "loggers ?w1 = loggers w @ [?x]" by simp
  from resolveLoop_frame[OF this, of "ctxResolver (loggers w ! l)" cx] obtain cf r where
    rl: "resolveLoop (length (loggers w)) (ctxResolver (loggers w ! l)) cx ?w1 =
      (?w1\<lparr>loggers := loggers w @ [?x\<lparr>data := (data ?x)\<lparr>contextFields := cf\<rparr>\<rparr>]\<rparr>, r)"
    and r: "r = Return () \<or> r = NoReturn \<or> r = Panicked NilPointer"
    by blast
  have unfolded: "WithContext l (Some cx) w =
     (case resolveLoop (length (loggers w)) (ctxResolver (loggers w ! l)) cx ?w1 of
        (w2, Return _) \<Rightarrow> (w2, Return (length (loggers w)))
      | (w2, Panicked p) \<Rightarrow> (w2, Panicked p)
      | (w2, Exited n) \<Rightarrow> (w2, Exited n)
      | (w2, NoReturn) \<Rightarrow> (w2, NoReturn))"
    using assms
    by (simp add: WithContext_def copy_valid[OF assms] set_data_new nth_append)
  from r consider "r = Return ()" | "r = NoReturn" | "r = Panicked NilPointer" by blast
  then show ?thesis
  proof cases
    assume "r = Return ()"
    with rl have "WithContext l (Some cx) w =
     (w\<lparr>loggers := loggers w @
         [(loggers w ! l)\<lparr>data := (data (loggers w ! l))\<lparr>ctx := Some cx, contextFields := cf\<rparr>\<rparr>]\<rparr>,
      Return (length (loggers w)))"
      unfolding unfolded by simp
    then show ?thesis by blast
  next
    assume "r = NoReturn"
    with rl have "WithContext l (Some cx) w =
     (w\<lparr>loggers := loggers w @
         [(loggers w ! l)\<lparr>data := (data (loggers w ! l))\<lparr>ctx := Some cx, contextFields := cf\<rparr>\<rparr>]\<rparr>,
      NoReturn)"
      unfolding unfolded by simp
    then show ?thesis by blast
  next
    assume "r = Panicked NilPointer"
    with rl have "WithContext l (Some cx) w =
     (w\<lparr>loggers := loggers w @
         [(loggers w ! l)\<lparr>data := (data (loggers w ! l))\<lparr>ctx := Some cx, contextFields := cf\<rparr>\<rparr>]\<rparr>,
      Panicked NilPointer)"
      unfolding unfolded by simp
    then show ?thesis by blast
  qed
qed

text \<open>
  The condition \<open>fields_sanitizable\<close> holds of every logger that the constructor and the
  chaining methods make: the fields of a new logger are empty, a merge yields sanitized
  values, and sanitized values can be sanitized again.
\<close>

lemma merged_sanitizable:
  assumes "mergeMapStringInterface h a b = Some (Value merged)"
  shows "fmpred (\<lambda>_ v. returns_value (prepareForLog h v)) merged"
proof -
  from assms obtain r i where r: "fmtraverse (prepareForLog h) (entries a) = Some (Value r)"
    and i: "fmtraverse (prepareForLog h) (entries b) = Some (Value i)" and m: "merged = r ++\<^sub>f i"
    by (auto simp: merge_Value_iff)
  have "returns_value (prepareForLog h v)" if "fmlookup merged k = Some v" for k v
  proof -
    from that m have "v \<in> fmran' r \<or> v \<in> fmran' i"
      by (auto simp: fmlookup_ran'_iff split: if_splits)
    with fmtraverse_ran[OF r] fmtraverse_ran[OF i] obtain x where
      "prepareForLog h x = Some (Value v)"
      by blast
    from prepareForLog_fixed[OF this] show ?thesis by simp
  qed
  then show ?thesis by (simp add: fmpred_iff)
qed

lemma NewLogger_sanitizable:
  "fields_sanitizable h (loggers (fst (NewLoggerWithInterfaces clk out lck w)) ! length (loggers w))"
  by (simp add: NewLoggerWithInterfaces_def fields_sanitizable_def entries_def)

lemma WithFields_sanitizable:
  assumes "l < length (loggers w)" and "WithFields l flds w = (w', Return cpy)"
  shows "fields_sanitizable (memory w') (loggers w' ! cpy)"
proof (cases "mergeMapStringInterface (memory w) (fields' (data (loggers w ! l))) flds")
  case None
  with assms show ?thesis by (simp add: WithFields_valid)
next
  case (Some a)
  show ?thesis
  proof (cases a)
    case NilDereference
    with Some assms show ?thesis by (simp add: WithFields_valid)
  next
    case (Value merged)
    with Some have m: "mergeMapStringInterface (memory w) (fields' (data (loggers w ! l))) flds =
        Some (Value merged)" by simp
    with assms merged_sanitizable[OF m] show ?thesis
      by (auto simp: WithFields_valid fields_sanitizable_def entries_def)
  qed
qed

lemma WithChannel_sanitizable:
  assumes "l < length (loggers w)" and "WithChannel l ch w = (w', Return cpy)"
    and "fields_sanitizable (memory w) (loggers w ! l)"
  shows "fields_sanitizable (memory w') (loggers w' ! cpy)"
  using assms by (auto simp: WithChannel_valid fields_sanitizable_def)

text \<open>
  Claim C8. For a receiver that is not nil: \<open>WithChannel\<close>, \<open>WithFields\<close> and \<open>WithContext\<close>
  leave every logger allocated before the call, the receiver among them, and the rest of
  the state as they were; the logger they return is a new one that shares clock, writer,
  lock, resolvers, hooks, level, format and timestamp format with the receiver;
  \<open>WithChannel\<close> changes the channel only; \<open>WithFields\<close> sets \<open>fields\<close> to the merge of the
  receiver's fields and the given ones and changes nothing else (it does not return when
  the merge does not, and panics when the merge does); \<open>WithContext\<close> with the nil context returns the receiver and changes
  nothing, and with a context it sets the context and the context fields only.
\<close>

theorem chaining_pure:
  assumes "l < length (loggers w)"
  shows
   "(\<exists>w'. WithChannel l ch w = (w', Return (length (loggers w))) \<and> preserved w w' \<and>
       (let old = loggers w ! l; new = loggers w' ! length (loggers w) in
        shares old new \<and> channel (data new) = ch \<and> ctx (data new) = ctx (data old) \<and>
        contextFields (data new) = contextFields (data old) \<and>
        fields' (data new) = fields' (data old) \<and> tags (data new) = tags (data old))) \<and>
    (\<exists>w' r. WithFields l flds w = (w', r) \<and> preserved w w' \<and>
       (let old = loggers w ! l; new = loggers w' ! length (loggers w) in
        case mergeMapStringInterface (memory w) (fields' (data old)) flds of
          None \<Rightarrow> r = NoReturn
        | Some NilDereference \<Rightarrow> r = Panicked NilPointer
        | Some (Value merged) \<Rightarrow>
            r = Return (length (loggers w)) \<and> shares old new \<and>
            fields' (data new) = Some merged \<and> channel (data new) = channel (data old) \<and>
            ctx (data new) = ctx (data old) \<and>
            contextFields (data new) = contextFields (data old) \<and>
            tags (data new) = tags (data old))) \<and>
    WithContext l None w = (w, Return l) \<and>
    (\<exists>w' r. WithContext l (Some cx) w = (w', r) \<and> preserved w w' \<and>
       (r = Return (length (loggers w)) \<or> r = NoReturn \<or> r = Panicked NilPointer) \<and>
       (let old = loggers w ! l; new = loggers w' ! length (loggers w) in
        shares old new \<and> ctx (data new) = Some cx \<and> channel (data new) = channel (data old) \<and>
        fields' (data new) = fields' (data old) \<and> tags (data new) = tags (data old)))"
proof (intro conjI)
  show "\<exists>w'. WithChannel l ch w = (w', Return (length (loggers w))) \<and> preserved w w' \<and>
       (let old = loggers w ! l; new = loggers w' ! length (loggers w) in
        shares old new \<and> channel (data new) = ch \<and> ctx (data new) = ctx (data old) \<and>
        contextFields (data new) = contextFields (data old) \<and>
        fields' (data new) = fields' (data old) \<and> tags (data new) = tags (data old))"
    by (simp add: WithChannel_valid[OF assms] preserved_def shares_def)
next
  show "\<exists>w' r. WithFields l flds w = (w', r) \<and> preserved w w' \<and>
       (let old = loggers w ! l; new = loggers w' ! length (loggers w) in
        case mergeMapStringInterface (memory w) (fields' (data old)) flds of
          None \<Rightarrow> r = NoReturn
        | Some NilDereference \<Rightarrow> r = Panicked NilPointer
        | Some (Value merged) \<Rightarrow>
            r = Return (length (loggers w)) \<and> shares old new \<and>
            fields' (data new) = Some merged \<and> channel (data new) = channel (data old) \<and>
            ctx (data new) = ctx (data old) \<and>
            contextFields (data new) = contextFields (data old) \<and>
            tags (data new) = tags (data old))"
  proof (cases "mergeMapStringInterface (memory w) (fields' (data (loggers w ! l))) flds")
    case None
    then show ?thesis by (simp add: WithFields_valid[OF assms] preserved_def shares_def)
  next
    case (Some a)
    then show ?thesis
      by (cases a) (simp_all add: WithFields_valid[OF assms] preserved_def shares_def)
  qed
next
  show "WithContext l None w = (w, Return l)"
    by (simp add: WithContext_def)
next
  from WithContext_valid[OF assms, of cx] obtain cf r where
    "WithContext l (Some cx) w =
     (w\<lparr>loggers := loggers w @
         [(loggers w ! l)\<lparr>data := (data (loggers w ! l))\<lparr>ctx := Some cx, contextFields := cf\<rparr>\<rparr>]\<rparr>, r)"
    and "r = Return (length (loggers w)) \<or> r = NoReturn \<or> r = Panicked NilPointer"
    by blast
  then show "\<exists>w' r. WithContext l (Some cx) w = (w', r) \<and> preserved w w' \<and>
       (r = Return (length (loggers w)) \<or> r = NoReturn \<or> r = Panicked NilPointer) \<and>
       (let old = loggers w ! l; new = loggers w' ! length (loggers w) in
        shares old new \<and> ctx (data new) = Some cx \<and> channel (data new) = channel (data old) \<and>
        fields' (data new) = fields' (data old) \<and> tags (data new) = tags (data old))"
    by (simp add: preserved_def shares_def)
qed

theorem chaining_pure_witness:
  "(0::nat) < length (loggers sample_world) \<and>
   (\<exists>w'. WithChannel 0 ''orders'' sample_world = (w', Return 1) \<and> preserved sample_world w' \<and>
      loggers w' ! 0 = sample_logger \<and> channel (data (loggers w' ! 1)) = ''orders'' \<and>
      shares sample_logger (loggers w' ! 1))"
proof -
  have h: "(0::nat) < length (loggers sample_world)" by (simp add: sample_world_def)
  from chaining_pure[OF h, of "''orders''"] obtain w' where
    w': "WithChannel 0 ''orders'' sample_world = (w', Return (length (loggers sample_world)))"
    "preserved sample_world w'"
    "shares (loggers sample_world ! 0) (loggers w' ! length (loggers sample_world))"
    "channel (data (loggers w' ! length (loggers sample_world))) = ''orders''"
    by (auto simp: Let_def)
  from w'(2) have "loggers w' ! 0 = sample_logger"
    by (auto simp: preserved_def sample_world_def dest: arg_cong[where f = "\<lambda>xs. xs ! 0"])
  with w' h show ?thesis by (simp add: sample_world_def)
qed

end

